theory Spec2Isabelle
  imports Complex_Main
begin

section \<open>Double-precision values\<close>

text \<open>
  The vectors of \<^verbatim>\<open>multinomial.h\<close> are \<^verbatim>\<open>NumpyArrayFY<double, 1>\<close>. A double is
  modelled as a real number or one of the three special values of IEEE 754; the sign of
  zero is not modelled. The arithmetic of \<^verbatim>\<open>log_likelihood\<close> (\<open>fadd\<close>, \<open>fsub\<close>,
  \<open>fmul\<close> and the conversions between \<^verbatim>\<open>unsigned long\<close> and double) rounds to the
  nearest double, ties to even, and overflows to an infinity. The sum and the quotients
  of the constructor (\<open>dadd\<close>, \<open>ddiv\<close>) are taken exactly on finite values, without
  rounding and without overflow: what is proved of the constructed \<^verbatim>\<open>_beta\<close> is proved
  of the exact quotients, and nothing is proved of their rounding error. The values of
  \<^verbatim>\<open>numpy.log\<close> and \<^verbatim>\<open>ln_gamma\<close> are taken unrounded. The special values arise where
  IEEE 754 produces them (overflow in \<^verbatim>\<open>log_likelihood\<close>, division by zero, the logarithm
  of zero or of a negative number) and propagate by the IEEE rules.
\<close>

datatype double = Finite real | PosInf | NegInf | NaN

fun dneg :: "double \<Rightarrow> double" where
  "dneg (Finite x) = Finite (- x)"
| "dneg PosInf = NegInf"
| "dneg NegInf = PosInf"
| "dneg NaN = NaN"

fun dadd :: "double \<Rightarrow> double \<Rightarrow> double" where
  "dadd (Finite x) (Finite y) = Finite (x + y)"
| "dadd NaN _ = NaN"
| "dadd _ NaN = NaN"
| "dadd PosInf NegInf = NaN"
| "dadd NegInf PosInf = NaN"
| "dadd PosInf _ = PosInf"
| "dadd NegInf _ = NegInf"
| "dadd (Finite x) PosInf = PosInf"
| "dadd (Finite x) NegInf = NegInf"

text \<open>The infinity whose sign is the sign of \<open>x\<close>; NaN for \<open>x = 0\<close>.\<close>

definition signed_inf :: "real \<Rightarrow> double" where
  "signed_inf x = (if x = 0 then NaN else if 0 < x then PosInf else NegInf)"

text \<open>
  Division: \<open>x / 0\<close> is the infinity of the sign of \<open>x\<close> and \<open>0 / 0\<close> is NaN (the
  zero divisor is taken as \<open>+0\<close>); a finite value divided by an infinity is \<open>0\<close>; an
  infinity divided by an infinity is NaN.
\<close>

fun ddiv :: "double \<Rightarrow> double \<Rightarrow> double" where
  "ddiv (Finite x) (Finite y) = (if y = 0 then signed_inf x else Finite (x / y))"
| "ddiv NaN _ = NaN"
| "ddiv _ NaN = NaN"
| "ddiv (Finite x) PosInf = Finite 0"
| "ddiv (Finite x) NegInf = Finite 0"
| "ddiv PosInf (Finite y) = (if 0 \<le> y then PosInf else NegInf)"
| "ddiv NegInf (Finite y) = (if 0 \<le> y then NegInf else PosInf)"
| "ddiv PosInf _ = NaN"
| "ddiv NegInf _ = NaN"

text \<open>The largest finite double, \<open>(2 - 2\<^sup>-\<^sup>5\<^sup>2) * 2\<^sup>1\<^sup>0\<^sup>2\<^sup>3\<close>.\<close>

definition DBL_MAX :: real where
  "DBL_MAX = (2 - 1 / 2 ^ 52) * 2 ^ 1023"

subsection \<open>Rounding to the nearest double\<close>

text \<open>
  A double has a significand of 53 bits. \<open>binade x\<close> is the exponent of \<open>x\<close>, at
  least \<open>-1022\<close> (below it the doubles are subnormal), and \<open>quantum x\<close> the distance
  between neighbouring doubles there. \<open>round_double\<close> takes a real number to the
  nearest multiple of the quantum, a tie to the even one, and to an infinity when that
  multiple reaches \<open>2\<^sup>1\<^sup>0\<^sup>2\<^sup>4\<close>.
\<close>

definition pow2 :: "int \<Rightarrow> real" where
  "pow2 e = (if 0 \<le> e then 2 ^ nat e else 1 / 2 ^ nat (- e))"

definition binade :: "real \<Rightarrow> int" where
  "binade x = (if x = 0 then - 1022 else max \<lfloor>log 2 \<bar>x\<bar>\<rfloor> (- 1022))"

definition quantum :: "real \<Rightarrow> real" where
  "quantum x = pow2 (binade x - 52)"

definition round_half_even :: "real \<Rightarrow> int" where
  "round_half_even t =
     (let f = \<lfloor>t\<rfloor>; r = t - of_int f
      in if r < 1 / 2 then f else if 1 / 2 < r then f + 1 else if even f then f else f + 1)"

definition round_double :: "real \<Rightarrow> double" where
  "round_double x =
     (let y = quantum x * of_int (round_half_even (x / quantum x))
      in if 2 ^ 1024 \<le> \<bar>y\<bar> then (if 0 < y then PosInf else NegInf) else Finite y)"

text \<open>Addition, subtraction and multiplication of doubles, rounded.\<close>

fun fadd :: "double \<Rightarrow> double \<Rightarrow> double" where
  "fadd (Finite x) (Finite y) = round_double (x + y)"
| "fadd NaN _ = NaN"
| "fadd _ NaN = NaN"
| "fadd PosInf NegInf = NaN"
| "fadd NegInf PosInf = NaN"
| "fadd PosInf _ = PosInf"
| "fadd NegInf _ = NegInf"
| "fadd (Finite x) PosInf = PosInf"
| "fadd (Finite x) NegInf = NegInf"

definition fsub :: "double \<Rightarrow> double \<Rightarrow> double" where
  "fsub a b = fadd a (dneg b)"

fun fmul :: "double \<Rightarrow> double \<Rightarrow> double" where
  "fmul (Finite x) (Finite y) = round_double (x * y)"
| "fmul NaN _ = NaN"
| "fmul _ NaN = NaN"
| "fmul PosInf PosInf = PosInf"
| "fmul PosInf NegInf = NegInf"
| "fmul NegInf PosInf = NegInf"
| "fmul NegInf NegInf = PosInf"
| "fmul PosInf (Finite y) = signed_inf y"
| "fmul NegInf (Finite y) = signed_inf (- y)"
| "fmul (Finite x) PosInf = signed_inf x"
| "fmul (Finite x) NegInf = signed_inf (- x)"

subsection \<open>The numpy functions the constructor calls\<close>

text \<open>\<^verbatim>\<open>numpy.sum\<close> of a one-dimensional array; the sum of the empty array is \<open>0.0\<close>.\<close>

definition numpy_sum :: "double list \<Rightarrow> double" where
  "numpy_sum xs = foldl dadd (Finite 0) xs"

text \<open>
  \<^verbatim>\<open>numpy.log\<close> on one element: \<open>log 0 = -inf\<close>, the logarithm of a negative number
  or of \<open>-inf\<close> is NaN (numpy warns and does not raise).
\<close>

fun numpy_log :: "double \<Rightarrow> double" where
  "numpy_log (Finite x) =
     (if x = 0 then NegInf else if x < 0 then NaN else Finite (ln x))"
| "numpy_log PosInf = PosInf"
| "numpy_log NegInf = NaN"
| "numpy_log NaN = NaN"

text \<open>
  \<^verbatim>\<open>numpy.nan_to_num\<close> with its default arguments, on one element: NaN becomes \<open>0.0\<close>,
  \<open>+inf\<close> the largest finite double and \<open>-inf\<close> the most negative finite double.
\<close>

fun nan_to_num :: "double \<Rightarrow> double" where
  "nan_to_num (Finite x) = Finite x"
| "nan_to_num PosInf = Finite DBL_MAX"
| "nan_to_num NegInf = Finite (- DBL_MAX)"
| "nan_to_num NaN = Finite 0"

section \<open>The class \<^verbatim>\<open>Multinomial\<close>\<close>

text \<open>The private members \<^verbatim>\<open>_beta\<close> and \<^verbatim>\<open>_log_beta\<close>.\<close>

record multinomial =
  beta :: "double list"
  log_beta :: "double list"

text \<open>
  The error kinds the specification names. The source signals a failure in one place
  only, the \<^verbatim>\<open>UTEXAS_ASSERT\<close> of \<^verbatim>\<open>log_likelihood\<close>; \<open>UndefinedConversion\<close> stands
  for a conversion from double to \<^verbatim>\<open>unsigned long\<close> that C++ leaves undefined.
\<close>

datatype error =
  InvalidParameterError
  | InvalidArgumentError
  | DimensionMismatchError
  | InternalConsistencyError
  | UndefinedConversion

text \<open>
  The constructor: \<^verbatim>\<open>_beta(beta)\<close>, \<^verbatim>\<open>_beta /= numpy.sum(beta)\<close>,
  \<^verbatim>\<open>_log_beta = numpy.nan_to_num(numpy.log(self.__beta))\<close>, where \<^verbatim>\<open>self.__beta\<close> is
  read as the member \<^verbatim>\<open>_beta\<close>. The sum is taken before the division, so the result
  is the same whether or not \<^verbatim>\<open>_beta\<close> shares its buffer with the argument. The body
  holds no check and no throw: the result is always \<open>Inr\<close>.
\<close>

definition Multinomial :: "double list \<Rightarrow> error + multinomial" where
  "Multinomial raw =
     (let s = numpy_sum raw;
          b = map (\<lambda>x. ddiv x s) raw
      in Inr \<lparr>beta = b, log_beta = map (\<lambda>x. nan_to_num (numpy_log x)) b\<rparr>)"

subsection \<open>The log-Gamma function\<close>

text \<open>
  The Gamma function on the reals, as Gauss's limit
  \<open>\<Gamma>(x) = lim n! n\<^sup>x / (x (x + 1) \<dots> (x + n))\<close>, and the logarithm of its absolute
  value.
\<close>

definition Gamma_seq :: "real \<Rightarrow> nat \<Rightarrow> real" where
  "Gamma_seq x n = fact n * real n powr x / pochhammer x (Suc n)"

definition Gamma :: "real \<Rightarrow> real" where
  "Gamma x = lim (Gamma_seq x)"

definition lgamma :: "real \<Rightarrow> real" where
  "lgamma x = ln \<bar>Gamma x\<bar>"

text \<open>
  Modelled from the spec: the helper \<^verbatim>\<open>ln_gamma\<close> that \<^verbatim>\<open>log_likelihood\<close> calls is not
  under src/. The specification names it the log of the Gamma function, evaluated by a
  standard library routine: \<open>ln |\<Gamma>(x)|\<close>, with \<open>+inf\<close> at the poles \<open>0, -1, -2, \<dots>\<close>
  and at both infinities, as the C library's \<^verbatim>\<open>lgamma\<close> returns.
\<close>

fun ln_gamma :: "double \<Rightarrow> double" where
  "ln_gamma (Finite x) = (if x \<le> 0 \<and> x \<in> \<int> then PosInf else Finite (lgamma x))"
| "ln_gamma PosInf = PosInf"
| "ln_gamma NegInf = PosInf"
| "ln_gamma NaN = NaN"

subsection \<open>\<^verbatim>\<open>log_likelihood\<close>\<close>

text \<open>
  \<^verbatim>\<open>n += sample(d)\<close> with \<^verbatim>\<open>unsigned long n\<close> converts \<^verbatim>\<open>n\<close> to double, adds in
  double and converts the sum back to \<^verbatim>\<open>unsigned long\<close> (64 bits). The conversion back
  discards the fractional part; C++ leaves it undefined when the truncated value is not
  in \<open>[0, 2\<^sup>6\<^sup>4)\<close>, and for NaN and the infinities.
\<close>

fun ulong_of_double :: "double \<Rightarrow> nat option" where
  "ulong_of_double (Finite x) =
     (let t = (if 0 \<le> x then \<lfloor>x\<rfloor> else \<lceil>x\<rceil>)
      in if 0 \<le> t \<and> t < 2 ^ 64 then Some (nat t) else None)"
| "ulong_of_double _ = None"

definition double_of_ulong :: "nat \<Rightarrow> double" where
  "double_of_ulong n = round_double (real n)"

text \<open>
  The loop \<^verbatim>\<open>for(size_t d = D; d--;)\<close>: the first argument is the value of \<^verbatim>\<open>d\<close> at
  the test, so the body runs at \<open>D - 1\<close>, ..., \<open>0\<close>. The pair is \<^verbatim>\<open>(n, l)\<close>.
\<close>

fun ll_loop :: "double list \<Rightarrow> double list \<Rightarrow> nat \<Rightarrow> nat \<times> double \<Rightarrow> error + nat \<times> double" where
  "ll_loop lb s 0 (n, l) = Inr (n, l)"
| "ll_loop lb s (Suc d) (n, l) =
     (case ulong_of_double (fadd (double_of_ulong n) (s ! d)) of
        None \<Rightarrow> Inl UndefinedConversion
      | Some n' \<Rightarrow>
          ll_loop lb s d
            (n', fadd (fsub l (ln_gamma (fadd (s ! d) (Finite 1)))) (fmul (lb ! d) (s ! d))))"

text \<open>
  Modelled from the spec: the macro \<^verbatim>\<open>UTEXAS_ASSERT\<close> is not under src/; an assertion
  that fails signals the error the specification calls \<open>DimensionMismatchError\<close>.
\<close>

definition UTEXAS_ASSERT :: "bool \<Rightarrow> error + unit" where
  "UTEXAS_ASSERT c = (if c then Inr () else Inl DimensionMismatchError)"

text \<open>
  The member function: the assertion on the length of the sample, the loop, and
  \<^verbatim>\<open>l + ln_gamma(n + 1)\<close>, where \<^verbatim>\<open>n + 1\<close> is computed in \<^verbatim>\<open>unsigned long\<close> and wraps
  at \<open>2\<^sup>6\<^sup>4\<close>. The loop reads \<^verbatim>\<open>_log_beta\<close> below \<open>D\<close>, the length of \<^verbatim>\<open>_beta\<close>; the
  constructor gives both vectors that length.
\<close>

definition log_likelihood :: "multinomial \<Rightarrow> double list \<Rightarrow> error + double" where
  "log_likelihood m sample =
     (let D = length (beta m) in
      case UTEXAS_ASSERT (length sample = D) of
        Inl e \<Rightarrow> Inl e
      | Inr _ \<Rightarrow>
          (case ll_loop (log_beta m) sample D (0, Finite 0) of
             Inl e \<Rightarrow> Inl e
           | Inr (n, l) \<Rightarrow> Inr (fadd l (ln_gamma (double_of_ulong ((n + 1) mod 2 ^ 64))))))"

subsection \<open>\<^verbatim>\<open>variate\<close> and \<^verbatim>\<open>indicator\<close>\<close>

text \<open>
  \<^verbatim>\<open>scipy.random.multinomial\<close> is a library function, a parameter of the model: from
  the number of trials, the probabilities and the state of the generator it gives the
  counts (\<open>None\<close> when the library raises) and the next state of the generator.
\<close>

type_synonym 'g sampler = "nat \<Rightarrow> double list \<Rightarrow> 'g \<Rightarrow> nat list option \<times> 'g"

definition variate_N :: "'g sampler \<Rightarrow> nat \<Rightarrow> multinomial \<Rightarrow> 'g \<Rightarrow> double list option \<times> 'g" where
  "variate_N mn N m g =
     (case mn N (beta m) g of (r, g') \<Rightarrow> (map_option (map (\<lambda>k. Finite (real k))) r, g'))"

definition variate :: "'g sampler \<Rightarrow> multinomial \<Rightarrow> 'g \<Rightarrow> double list option \<times> 'g" where
  "variate mn m g = variate_N mn 1 m g"

text \<open>
  The body of \<^verbatim>\<open>indicator\<close> is the comment \<^verbatim>\<open>// FIXME.\<close> alone: nothing is drawn, the
  generator is not touched and control leaves the function without a return statement,
  so that no value is produced.
\<close>

definition indicator :: "multinomial \<Rightarrow> 'g \<Rightarrow> nat option \<times> 'g" where
  "indicator m g = (None, g)"

definition get_beta :: "multinomial \<Rightarrow> double list" where
  "get_beta m = beta m"

definition get_log_beta :: "multinomial \<Rightarrow> double list" where
  "get_log_beta m = log_beta m"

subsection \<open>Calls on an instance\<close>

text \<open>
  A call of a member function on an instance and a generator gives a result, the
  instance after the call and the generator after the call. No member function assigns
  to \<^verbatim>\<open>_beta\<close> or \<^verbatim>\<open>_log_beta\<close>.
\<close>

datatype call =
  CallVariate
  | CallVariateN nat
  | CallIndicator
  | CallLogLikelihood "double list"
  | CallGetBeta
  | CallGetLogBeta

datatype result =
  Sample "double list option"
  | Index "nat option"
  | LogLik "error + double"
  | Vector "double list"

fun exec :: "'g sampler \<Rightarrow> call \<Rightarrow> multinomial \<times> 'g \<Rightarrow> result \<times> multinomial \<times> 'g" where
  "exec mn CallVariate (m, g) = (case variate mn m g of (r, g') \<Rightarrow> (Sample r, m, g'))"
| "exec mn (CallVariateN N) (m, g) = (case variate_N mn N m g of (r, g') \<Rightarrow> (Sample r, m, g'))"
| "exec mn CallIndicator (m, g) = (case indicator m g of (r, g') \<Rightarrow> (Index r, m, g'))"
| "exec mn (CallLogLikelihood s) (m, g) = (LogLik (log_likelihood m s), m, g)"
| "exec mn CallGetBeta (m, g) = (Vector (get_beta m), m, g)"
| "exec mn CallGetLogBeta (m, g) = (Vector (get_log_beta m), m, g)"

fun run :: "'g sampler \<Rightarrow> call list \<Rightarrow> multinomial \<times> 'g \<Rightarrow> multinomial \<times> 'g" where
  "run mn [] st = st"
| "run mn (c # cs) st = run mn cs (snd (exec mn c st))"

subsection \<open>Well-formed inputs\<close>

text \<open>A finite, non-negative double.\<close>

fun nonneg :: "double \<Rightarrow> bool" where
  "nonneg (Finite x) = (0 \<le> x)"
| "nonneg _ = False"

text \<open>
  The probabilities \<^verbatim>\<open>numpy.random.multinomial\<close> accepts, and what its documentation
  promises for them: a vector of counts as long as the probabilities, summing to the
  number of trials.
\<close>

definition valid_pvals :: "double list \<Rightarrow> bool" where
  "valid_pvals p = (p \<noteq> [] \<and> list_all nonneg p \<and> numpy_sum p = Finite 1)"

definition multinomial_contract :: "'g sampler \<Rightarrow> bool" where
  "multinomial_contract mn =
     (\<forall>N p g. valid_pvals p \<longrightarrow>
        (\<exists>ks. fst (mn N p g) = Some ks \<and> length ks = length p \<and> sum_list ks = N))"

subsection \<open>The two accumulations of the loop, apart\<close>

text \<open>
  What the loop does to \<^verbatim>\<open>l\<close> alone: at each index the term
  \<^verbatim>\<open>ln_gamma(sample(d) + 1)\<close> is subtracted and \<^verbatim>\<open>_log_beta(d) * sample(d)\<close> added, in
  double arithmetic.
\<close>

fun ll_terms :: "double list \<Rightarrow> double list \<Rightarrow> nat \<Rightarrow> double \<Rightarrow> double" where
  "ll_terms lb s 0 l = l"
| "ll_terms lb s (Suc d) l =
     ll_terms lb s d (fadd (fsub l (ln_gamma (fadd (s ! d) (Finite 1)))) (fmul (lb ! d) (s ! d)))"

text \<open>
  The terms of the specification's formula for a vector of counts,
  \<open>- lgamma(sample[d] + 1) + sample[d] * log_beta[d]\<close>, accumulated in double arithmetic
  in the order of the loop.
\<close>

fun formula_terms :: "double list \<Rightarrow> nat list \<Rightarrow> nat \<Rightarrow> double \<Rightarrow> double" where
  "formula_terms lb ks 0 l = l"
| "formula_terms lb ks (Suc d) l =
     formula_terms lb ks d
       (fadd (fsub l (Finite (lgamma (real (ks ! d) + 1)))) (fmul (lb ! d) (Finite (real (ks ! d)))))"

text \<open>
  A probability held in a double: \<open>0\<close>, or a number from the smallest positive double
  \<open>2\<^sup>-\<^sup>1\<^sup>0\<^sup>7\<^sup>4\<close> up to \<open>1\<close>.
\<close>

fun probability :: "double \<Rightarrow> bool" where
  "probability (Finite b) = (b = 0 \<or> (1 / 2 ^ 1074 \<le> b \<and> b \<le> 1))"
| "probability _ = False"

text \<open>A double that is negative infinity or a finite number at most \<open>0\<close>.\<close>

fun nonpos :: "double \<Rightarrow> bool" where
  "nonpos (Finite x) = (x \<le> 0)"
| "nonpos NegInf = True"
| "nonpos _ = False"

text \<open>
  A double that is negative infinity or a finite number at most \<open>- DBL_MAX\<close>.
\<close>

fun lowest :: "double \<Rightarrow> bool" where
  "lowest (Finite x) = (x \<le> - DBL_MAX)"
| "lowest NegInf = True"
| "lowest _ = False"

text \<open>
  The number of trials of a vector of counts that fall in categories of probability zero.
\<close>

definition zero_probability_trials :: "double list \<Rightarrow> nat list \<Rightarrow> nat" where
  "zero_probability_trials b ks = (\<Sum>d<length ks. if b ! d = Finite 0 then ks ! d else 0)"

subsection \<open>Instances and a sampler for the examples\<close>

text \<open>
  The instances the constructor builds from \<open>[1, 1]\<close>, \<open>[1, 0]\<close>, \<open>[1]\<close> and
  \<open>[1, 3]\<close>, and a sampler that puts every trial in the first category.
\<close>

definition fair_coin :: multinomial where
  "fair_coin = \<lparr>beta = [Finite (1 / 2), Finite (1 / 2)],
                 log_beta = [Finite (ln (1 / 2)), Finite (ln (1 / 2))]\<rparr>"

definition certain_first :: multinomial where
  "certain_first = \<lparr>beta = [Finite 1, Finite 0], log_beta = [Finite 0, Finite (- DBL_MAX)]\<rparr>"

definition single :: multinomial where
  "single = \<lparr>beta = [Finite 1], log_beta = [Finite 0]\<rparr>"

definition quarter :: multinomial where
  "quarter = \<lparr>beta = [Finite (1 / 4), Finite (3 / 4)],
               log_beta = [Finite (ln (1 / 4)), Finite (ln (3 / 4))]\<rparr>"

definition first_only :: "unit sampler" where
  "first_only N p g = (Some (N # replicate (length p - 1) 0), g)"

section \<open>Auxiliary facts\<close>

subsection \<open>The Gamma function at the positive integers\<close>

lemma ratio_tendsto_1: "(\<lambda>n. real n / (real n + c)) \<longlonglongrightarrow> 1"
proof -
  have "(\<lambda>n. 1 / (1 + c * (1 / real n))) \<longlonglongrightarrow> 1 / (1 + c * 0)"
    by (intro tendsto_intros lim_inverse_n') simp
  moreover have "\<forall>\<^sub>F n in sequentially. 1 / (1 + c * (1 / real n)) = real n / (real n + c)"
    using eventually_gt_at_top [of 0]
    by eventually_elim (simp add: field_simps)
  ultimately show ?thesis
    by (simp add: tendsto_cong)
qed

lemma Gamma_seq_Suc:
  assumes "0 < n"
  shows "Gamma_seq (real (Suc m)) n = fact m * (\<Prod>j<Suc m. real n / (real n + real (Suc j)))"
proof -
  have p1: "fact (m + Suc n) = fact m * pochhammer (real (Suc m)) (Suc n)"
    using pochhammer_product' [of "1::real" m "Suc n"]
    by (simp add: pochhammer_fact [symmetric] add.commute)
  have p2: "(fact (n + Suc m) :: real) = fact n * pochhammer (real (Suc n)) (Suc m)"
    using pochhammer_product' [of "1::real" n "Suc m"]
    by (simp add: pochhammer_fact [symmetric] add.commute)
  have p3: "pochhammer (real (Suc n)) (Suc m) = (\<Prod>j<Suc m. real n + real (Suc j))"
    unfolding pochhammer_prod atLeast0LessThan by (rule prod.cong) (simp_all add: ac_simps)
  have "Gamma_seq (real (Suc m)) n = fact n * real n ^ Suc m / pochhammer (real (Suc m)) (Suc n)"
    using assms unfolding Gamma_seq_def by (simp only: powr_realpow of_nat_0_less_iff)
  also have "pochhammer (real (Suc m)) (Suc n) = fact n * pochhammer (real (Suc n)) (Suc m) / fact m"
    using p1 p2 by (simp add: add.commute field_simps)
  also have "fact n * real n ^ Suc m / (fact n * pochhammer (real (Suc n)) (Suc m) / fact m)
      = fact m * (real n ^ Suc m / (\<Prod>j<Suc m. real n + real (Suc j)))"
    unfolding p3 by (simp del: prod.lessThan_Suc power_Suc)
  also have "real n ^ Suc m / (\<Prod>j<Suc m. real n + real (Suc j))
      = (\<Prod>j<Suc m. real n / (real n + real (Suc j)))"
    by (simp add: prod_dividef del: prod.lessThan_Suc power_Suc)
  finally show ?thesis .
qed

lemma Gamma_seq_tendsto: "Gamma_seq (real (Suc m)) \<longlonglongrightarrow> fact m"
proof -
  have "(\<lambda>n. fact m * (\<Prod>j<Suc m. real n / (real n + real (Suc j)))) \<longlonglongrightarrow> fact m * (\<Prod>j<Suc m. 1)"
    by (intro tendsto_intros ratio_tendsto_1)
  moreover have "\<forall>\<^sub>F n in sequentially.
      fact m * (\<Prod>j<Suc m. real n / (real n + real (Suc j))) = Gamma_seq (real (Suc m)) n"
    using eventually_gt_at_top [of 0]
    by eventually_elim (simp only: Gamma_seq_Suc)
  ultimately show ?thesis
    by (simp add: tendsto_cong del: prod.lessThan_Suc)
qed

lemma Gamma_Suc: "Gamma (real (Suc m)) = fact m"
  unfolding Gamma_def by (rule limI) (rule Gamma_seq_tendsto)

lemma lgamma_Suc: "lgamma (real (Suc m)) = ln (fact m)"
  unfolding lgamma_def Gamma_Suc by simp

lemma lgamma_numerals:
  "lgamma 1 = 0" "lgamma 2 = 0" "lgamma 3 = ln 2" "lgamma 4 = ln 6" "lgamma 6 = ln 120"
  using lgamma_Suc [of 0] lgamma_Suc [of 1] lgamma_Suc [of 2] lgamma_Suc [of 3] lgamma_Suc [of 5]
  by (simp_all add: fact_numeral eval_nat_numeral)

subsection \<open>Sums and the constructor on finite vectors\<close>

lemma foldl_dadd_Finite: "foldl dadd (Finite a) (map Finite rs) = Finite (a + sum_list rs)"
  by (induction rs arbitrary: a) (simp_all add: add.assoc)

lemma numpy_sum_Finite: "numpy_sum (map Finite rs) = Finite (sum_list rs)"
  by (simp add: numpy_sum_def foldl_dadd_Finite)

lemma DBL_MAX_pos: "0 < DBL_MAX"
  by (simp add: DBL_MAX_def)

lemma Multinomial_Finite:
  assumes "sum_list rs \<noteq> 0"
  shows "Multinomial (map Finite rs) =
    Inr \<lparr>beta = map (\<lambda>r. Finite (r / sum_list rs)) rs,
         log_beta = map (\<lambda>r. nan_to_num (numpy_log (Finite (r / sum_list rs)))) rs\<rparr>"
  using assms by (simp add: Multinomial_def numpy_sum_Finite o_def)

lemma sum_list_divide: "sum_list (map (\<lambda>r. r / c) rs) = sum_list rs / (c::real)"
  by (induction rs) (simp_all add: add_divide_distrib)

lemma valid_raw_beta:
  assumes "0 < sum_list rs" "Multinomial (map Finite rs) = Inr m"
  shows "beta m = map (\<lambda>r. Finite (r / sum_list rs)) rs"
    and "numpy_sum (beta m) = Finite 1"
proof -
  have ne: "sum_list rs \<noteq> 0"
    using assms(1) by simp
  show b: "beta m = map (\<lambda>r. Finite (r / sum_list rs)) rs"
    using assms(2) Multinomial_Finite [OF ne] by auto
  have "beta m = map Finite (map (\<lambda>r. r / sum_list rs) rs)"
    by (simp add: b)
  then show "numpy_sum (beta m) = Finite 1"
    using ne by (simp only: numpy_sum_Finite sum_list_divide) simp
qed

lemma Multinomial_certain_first: "Multinomial [Finite 1, Finite 0] = Inr certain_first"
  by (simp add: Multinomial_def numpy_sum_def certain_first_def)

lemma Multinomial_single: "Multinomial [Finite 1] = Inr single"
  by (simp add: Multinomial_def numpy_sum_def single_def)

lemma ln_gamma_pos: "0 < x \<Longrightarrow> ln_gamma (Finite x) = Finite (lgamma x)"
  by simp

lemma sum_nth_sum_list: "(\<Sum>i<length ks. f (ks ! i)) = sum_list (map f ks)"
  by (simp add: sum_list_sum_nth atLeast0LessThan)

subsection \<open>Calls leave the instance as it is\<close>

lemma exec_state: "fst (snd (exec mn c (m, g))) = m"
  by (cases c) (simp_all split: prod.splits)

lemma run_state: "fst (run mn cs st) = fst st"
proof (induction cs arbitrary: st)
  case Nil
  show ?case by simp
next
  case (Cons c cs)
  have "fst (snd (exec mn c st)) = fst st"
    using exec_state [of mn c "fst st" "snd st"] by simp
  then show ?case
    using Cons.IH [of "snd (exec mn c st)"] by simp
qed

subsection \<open>The sampler and count vectors\<close>

lemma Multinomial_quarter: "Multinomial (map Finite [1, 3]) = Inr quarter"
  by (simp add: Multinomial_def numpy_sum_def quarter_def)

lemma valid_pvals_beta:
  assumes "\<forall>r\<in>set rs. 0 \<le> r" "0 < sum_list rs" "Multinomial (map Finite rs) = Inr m"
  shows "valid_pvals (beta m)"
proof -
  note b = valid_raw_beta [OF assms(2,3)]
  have "rs \<noteq> []"
    using assms(2) by auto
  then have ne: "beta m \<noteq> []"
    by (simp add: b(1))
  have "list_all nonneg (beta m)"
    using assms(1,2) by (simp add: b(1) list_all_iff)
  then show ?thesis
    using ne b(2) by (simp add: valid_pvals_def)
qed

lemma sum_list_zero_replicate: "sum_list ks = 0 \<Longrightarrow> ks = replicate (length ks) (0::nat)"
  by (induction ks) simp_all

lemma sum_list_one_hot:
  "sum_list ks = Suc 0 \<Longrightarrow> \<exists>i<length ks. ks = (replicate (length ks) (0::nat))[i := 1]"
proof (induction ks)
  case Nil
  then show ?case by simp
next
  case (Cons k ks)
  show ?case
  proof (cases k)
    case 0
    then have "sum_list ks = Suc 0"
      using Cons.prems by simp
    then obtain i where i: "i < length ks" "ks = (replicate (length ks) 0)[i := 1]"
      using Cons.IH by blast
    have "k # ks = (replicate (length (k # ks)) 0)[Suc i := 1]"
      using 0 i(2) by simp
    moreover have "Suc i < length (k # ks)"
      using i(1) by simp
    ultimately show ?thesis
      by blast
  next
    case (Suc j)
    then have k: "k = 1" "sum_list ks = 0"
      using Cons.prems by simp_all
    have "ks = replicate (length ks) 0"
      using k(2) by (rule sum_list_zero_replicate)
    then have "k # ks = (replicate (length (k # ks)) 0)[0 := 1]"
      using k(1) by simp
    moreover have "0 < length (k # ks)"
      by simp
    ultimately show ?thesis
      by blast
  qed
qed

lemma variate_N_contract:
  assumes "multinomial_contract mn" "valid_pvals (beta m)"
  shows "\<exists>ks. fst (variate_N mn N m g) = Some (map (\<lambda>k. Finite (real k)) ks) \<and>
    length ks = length (beta m) \<and> sum_list ks = N"
proof -
  obtain ks where ks: "fst (mn N (beta m) g) = Some ks" "length ks = length (beta m)" "sum_list ks = N"
    using assms unfolding multinomial_contract_def by blast
  have "fst (variate_N mn N m g) = Some (map (\<lambda>k. Finite (real k)) ks)"
    using ks(1) by (cases "mn N (beta m) g") (simp add: variate_N_def)
  then show ?thesis
    using ks(2,3) by blast
qed

lemma first_only_contract: "multinomial_contract first_only"
  unfolding multinomial_contract_def first_only_def valid_pvals_def
  by (auto simp: Suc_leI)

subsection \<open>Rounding\<close>

lemma pow2_powr: "pow2 e = 2 powr (of_int e)"
  by (simp add: pow2_def powr_real_of_int divide_inverse)

lemma pow2_pos [simp]: "0 < pow2 e"
  by (simp add: pow2_powr)

lemma pow2_add: "pow2 (a + b) = pow2 a * pow2 b"
  by (simp add: pow2_powr powr_add)

lemma pow2_diff: "pow2 (a - b) = pow2 a / pow2 b"
  by (simp add: pow2_powr powr_diff)

lemma pow2_mono: "a \<le> b \<Longrightarrow> pow2 a \<le> pow2 b"
  by (simp add: pow2_powr)

lemma floor_log2_bounds:
  assumes "0 < x"
  shows "pow2 \<lfloor>log 2 x\<rfloor> \<le> x" and "x < pow2 (\<lfloor>log 2 x\<rfloor> + 1)"
  using floor_log_eq_powr_iff [of x 2 "\<lfloor>log 2 x\<rfloor>"] assms by (simp_all add: pow2_powr)

lemma floor_log2_le:
  assumes "0 < x" "x < pow2 (j + 1)"
  shows "\<lfloor>log 2 x\<rfloor> \<le> j"
proof (rule ccontr)
  assume "\<not> \<lfloor>log 2 x\<rfloor> \<le> j"
  then have "j + 1 \<le> \<lfloor>log 2 x\<rfloor>" by simp
  then have "pow2 (j + 1) \<le> pow2 \<lfloor>log 2 x\<rfloor>" by (rule pow2_mono)
  then show False using floor_log2_bounds(1) [OF assms(1)] assms(2) by simp
qed

lemma floor_log2_ge:
  assumes "0 < x" "pow2 j \<le> x"
  shows "j \<le> \<lfloor>log 2 x\<rfloor>"
proof (rule ccontr)
  assume "\<not> j \<le> \<lfloor>log 2 x\<rfloor>"
  then have "\<lfloor>log 2 x\<rfloor> + 1 \<le> j" by simp
  then have "pow2 (\<lfloor>log 2 x\<rfloor> + 1) \<le> pow2 j" by (rule pow2_mono)
  then show False using floor_log2_bounds(2) [OF assms(1)] assms(2) by simp
qed

lemma binade_ge_min: "- 1022 \<le> binade x"
  by (simp add: binade_def)

lemma binade_le:
  assumes "\<bar>x\<bar> < pow2 (j + 1)" "- 1022 \<le> j"
  shows "binade x \<le> j"
proof (cases "x = 0")
  case True
  then show ?thesis using assms(2) by (simp add: binade_def)
next
  case False
  then have "0 < \<bar>x\<bar>" by simp
  from floor_log2_le [OF this assms(1)] show ?thesis
    using False assms(2) by (simp add: binade_def)
qed

lemma binade_ge:
  assumes "pow2 j \<le> \<bar>x\<bar>"
  shows "j \<le> binade x"
proof -
  have "0 < \<bar>x\<bar>"
    using assms pow2_pos [of j] by linarith
  from floor_log2_ge [OF this assms] show ?thesis
    using \<open>0 < \<bar>x\<bar>\<close> by (simp add: binade_def)
qed

lemma abs_less_pow2_binade: "\<bar>x\<bar> < pow2 (binade x + 1)"
proof (cases "x = 0")
  case True
  then show ?thesis by simp
next
  case False
  then have p: "0 < \<bar>x\<bar>" by simp
  have "pow2 (\<lfloor>log 2 \<bar>x\<bar>\<rfloor> + 1) \<le> pow2 (binade x + 1)"
    using False by (intro pow2_mono) (simp add: binade_def)
  then show ?thesis
    using floor_log2_bounds(2) [OF p] by linarith
qed

lemma abs_pow2 [simp]: "\<bar>pow2 e\<bar> = pow2 e"
  by (rule abs_of_pos) (rule pow2_pos)

lemma pow2_numerals: "pow2 53 = 2 ^ 53" "pow2 1024 = 2 ^ 1024" "pow2 0 = 1" "pow2 52 = 2 ^ 52"
  by (simp_all add: pow2_def)

lemma pow2_int: "pow2 (int n) = 2 ^ n"
  by (simp add: pow2_def)

lemma pow2_53_mult: "2 ^ 53 * pow2 e = pow2 (e + 53)"
  by (simp only: pow2_add pow2_numerals mult.commute)

lemma round_half_even_int [simp]: "round_half_even (of_int k) = k"
  by (simp add: round_half_even_def)

lemma round_half_even_le:
  assumes "t \<le> of_int K"
  shows "round_half_even t \<le> K"
proof -
  have f: "\<lfloor>t\<rfloor> \<le> K"
    using assms by (simp add: floor_le_iff)
  show ?thesis
  proof (cases "\<lfloor>t\<rfloor> = K")
    case True
    then have "t = of_int K"
      using assms of_int_floor_le [of t] by linarith
    then show ?thesis by simp
  next
    case False
    then have "\<lfloor>t\<rfloor> + 1 \<le> K" using f by simp
    then show ?thesis
      by (simp add: round_half_even_def Let_def)
  qed
qed

lemma round_half_even_ge:
  assumes "of_int K \<le> t"
  shows "K \<le> round_half_even t"
proof -
  have "K \<le> \<lfloor>t\<rfloor>"
    using assms by (simp add: le_floor_iff)
  then show ?thesis
    by (simp add: round_half_even_def Let_def)
qed

lemma quantum_pos [simp]: "0 < quantum x"
  by (simp add: quantum_def)

lemma round_double_exact:
  assumes "x / quantum x \<in> \<int>" "\<bar>x\<bar> < 2 ^ 1024"
  shows "round_double x = Finite x"
proof -
  obtain k where k: "x / quantum x = of_int k"
    using assms(1) by (auto elim: Ints_cases)
  have "quantum x * of_int (round_half_even (x / quantum x)) = x"
    by (simp add: k) (metis k nonzero_eq_divide_eq quantum_pos less_irrefl mult.commute)
  then show ?thesis
    using assms(2) by (simp add: round_double_def)
qed

lemma scaled_quantum_int:
  assumes "\<bar>j\<bar> < 2 ^ 53" "- 1074 \<le> e"
  shows "of_int j * pow2 e / quantum (of_int j * pow2 e) \<in> \<int>"
proof -
  let ?x = "of_int j * pow2 e"
  have "\<bar>?x\<bar> = \<bar>of_int j\<bar> * pow2 e"
    by (simp add: abs_mult)
  also have "\<dots> < 2 ^ 53 * pow2 e"
  proof -
    have "\<bar>real_of_int j\<bar> < 2 ^ 53"
      using assms(1) by (metis of_int_abs of_int_less_numeral_power_cancel_iff)
    then show ?thesis by simp
  qed
  also have "\<dots> = pow2 (e + 52 + 1)"
    using pow2_53_mult [of e] by (simp add: add.assoc)
  finally have "binade ?x \<le> e + 52"
    using assms(2) by (intro binade_le) simp_all
  then obtain n where n: "e - (binade ?x - 52) = int n"
    by (metis diff_ge_0_iff_ge diff_diff_eq2 nonneg_int_cases add.commute diff_add_eq)
  have "?x / quantum ?x = of_int j * pow2 (e - (binade ?x - 52))"
    by (simp add: quantum_def pow2_diff)
  also have "\<dots> = of_int (j * 2 ^ n)"
    by (simp only: n pow2_int of_int_mult of_int_power of_int_numeral)
  finally show ?thesis
    by (simp only: Ints_of_int)
qed

lemma round_double_scaled:
  assumes "\<bar>j\<bar> < 2 ^ 53" "- 1074 \<le> e" "e \<le> 971"
  shows "round_double (of_int j * pow2 e) = Finite (of_int j * pow2 e)"
proof (rule round_double_exact)
  show "of_int j * pow2 e / quantum (of_int j * pow2 e) \<in> \<int>"
    using assms(1,2) by (rule scaled_quantum_int)
  have "\<bar>real_of_int j\<bar> < 2 ^ 53"
    using assms(1) by (metis of_int_abs of_int_less_numeral_power_cancel_iff)
  then have "\<bar>of_int j * pow2 e\<bar> < 2 ^ 53 * pow2 e"
    by (simp add: abs_mult)
  also have "\<dots> = pow2 (e + 53)"
    by (rule pow2_53_mult)
  also have "\<dots> \<le> pow2 1024"
    using assms(3) by (intro pow2_mono) simp
  finally show "\<bar>of_int j * pow2 e\<bar> < 2 ^ 1024"
    by (simp only: pow2_numerals)
qed

lemma quantum_nonneg [simp]: "0 \<le> quantum x"
  using quantum_pos [of x] by linarith

lemma quantum_neq0 [simp]: "quantum x \<noteq> 0"
  using quantum_pos [of x] by linarith

lemma round_double_bound:
  assumes M: "M / quantum M \<in> \<int>" "M < 2 ^ 1024" and x: "\<bar>x\<bar> \<le> M"
  shows "\<exists>y. round_double x = Finite y \<and> \<bar>y\<bar> \<le> M"
proof -
  have M0: "0 \<le> M" using x by linarith
  have "\<bar>x\<bar> < pow2 (binade M + 1)"
    using abs_less_pow2_binade [of M] x M0 by simp
  then have "binade x \<le> binade M"
    by (intro binade_le) (simp_all add: binade_ge_min)
  then obtain n where n: "binade M - 52 = (binade x - 52) + int n"
    by (metis diff_ge_0_iff_ge nonneg_int_cases diff_add_cancel add.commute diff_diff_eq2 diff_right_mono zle_iff_zadd)
  obtain K where K: "M / quantum M = of_int K"
    using M(1) by (auto elim: Ints_cases)
  have qM: "quantum M = quantum x * 2 ^ n"
    by (simp add: quantum_def n pow2_add pow2_int)
  have "M = quantum M * of_int K"
    using K by (simp add: field_simps)
  then have Mq: "M = quantum x * of_int (K * 2 ^ n)"
    by (simp add: qM)
  let ?r = "round_half_even (x / quantum x)"
  have MK: "M / quantum x = of_int (K * 2 ^ n)"
    by (subst Mq) simp
  have xm: "x \<le> M" "- M \<le> x"
    using x by linarith+
  have "x / quantum x \<le> M / quantum x"
    using xm(1) by (intro divide_right_mono) simp_all
  then have "x / quantum x \<le> of_int (K * 2 ^ n)"
    by (simp only: MK)
  then have up: "?r \<le> K * 2 ^ n"
    by (rule round_half_even_le)
  have "- M / quantum x \<le> x / quantum x"
    using xm(2) by (intro divide_right_mono) simp_all
  then have "of_int (- (K * 2 ^ n)) \<le> x / quantum x"
    using MK by simp
  then have lo: "- (K * 2 ^ n) \<le> ?r"
    by (rule round_half_even_ge)
  have "\<bar>?r\<bar> \<le> K * 2 ^ n"
    using up lo by linarith
  then have "\<bar>real_of_int ?r\<bar> \<le> of_int (K * 2 ^ n)"
    by (metis of_int_abs of_int_le_iff)
  then have "quantum x * \<bar>real_of_int ?r\<bar> \<le> quantum x * of_int (K * 2 ^ n)"
    by (intro mult_left_mono) simp_all
  then have y: "\<bar>quantum x * of_int ?r\<bar> \<le> M"
    using Mq by (simp add: abs_mult)
  then have "\<not> 2 ^ 1024 \<le> \<bar>quantum x * of_int ?r\<bar>"
    using M(2) by linarith
  then have "round_double x = Finite (quantum x * of_int ?r)"
    by (simp add: round_double_def Let_def)
  then show ?thesis
    using y by blast
qed

lemma round_double_nonpos:
  assumes "x \<le> 0"
  shows "round_double x = NegInf \<or> (\<exists>y\<le>0. round_double x = Finite y)"
proof -
  have "x / quantum x \<le> of_int 0"
    using assms by (simp add: divide_le_0_iff)
  then have "round_half_even (x / quantum x) \<le> 0"
    by (rule round_half_even_le)
  then have "quantum x * of_int (round_half_even (x / quantum x)) \<le> 0"
    by (simp add: mult_le_0_iff)
  then show ?thesis
    by (auto simp: round_double_def Let_def)
qed

lemma round_double_not_NaN [simp]: "round_double x \<noteq> NaN"
  by (simp add: round_double_def Let_def)

lemma round_double_overflow_neg:
  assumes "x \<le> - (2 ^ 1024)"
  shows "round_double x = NegInf"
proof -
  have ax: "pow2 1024 \<le> \<bar>x\<bar>"
    using assms by (simp add: pow2_numerals)
  then have b: "1024 \<le> binade x"
    by (rule binade_ge)
  have x0: "x \<noteq> 0" using assms by auto
  then have "binade x = \<lfloor>log 2 \<bar>x\<bar>\<rfloor>"
    using b by (simp add: binade_def max_def split: if_splits)
  then have lo: "pow2 (binade x) \<le> \<bar>x\<bar>"
    using floor_log2_bounds(1) [of "\<bar>x\<bar>"] x0 by simp
  have "pow2 (binade x) = quantum x * of_int (2 ^ 52)"
    using pow2_add [of "binade x - 52" 52] by (simp add: quantum_def pow2_numerals)
  then have "quantum x * of_int (2 ^ 52) \<le> - x"
    using lo assms by simp
  then have "x / quantum x \<le> of_int (- (2 ^ 52))"
    by (simp add: pos_divide_le_eq mult.commute)
  then have "round_half_even (x / quantum x) \<le> - (2 ^ 52)"
    by (rule round_half_even_le)
  then have "real_of_int (round_half_even (x / quantum x)) \<le> - (2 ^ 52)"
    by (metis of_int_le_iff of_int_minus of_int_numeral of_int_power)
  then have "quantum x * of_int (round_half_even (x / quantum x)) \<le> quantum x * (- (2 ^ 52))"
    by (intro mult_left_mono) simp_all
  also have "\<dots> = - pow2 (binade x)"
    using pow2_add [of "binade x - 52" 52] by (simp add: quantum_def pow2_numerals)
  also have "\<dots> \<le> - pow2 1024"
    using b by (simp add: pow2_mono)
  finally have y: "quantum x * of_int (round_half_even (x / quantum x)) \<le> - (2 ^ 1024)"
    by (simp only: pow2_numerals)
  then show ?thesis
    by (simp add: round_double_def Let_def)
qed

lemma pow2_0 [simp]: "pow2 0 = 1"
  by (simp add: pow2_def)

lemma pow2_neg_nat: "pow2 (- int k) = 1 / 2 ^ k"
  using pow2_diff [of 0 "int k"] by (simp add: pow2_int)

lemma round_double_nat:
  assumes "n < 2 ^ 53"
  shows "round_double (real n) = Finite (real n)"
proof -
  have "\<bar>int n\<bar> < 2 ^ 53"
    using assms by (metis abs_of_nat of_nat_less_numeral_power_cancel_iff)
  from round_double_scaled [OF this, of 0] show ?thesis
    by simp
qed

lemma round_double_dyadic:
  assumes "j < 2 ^ 53" "k \<le> 1074"
  shows "round_double (real j / 2 ^ k) = Finite (real j / 2 ^ k)"
proof -
  have "\<bar>int j\<bar> < 2 ^ 53"
    using assms(1) by (metis abs_of_nat of_nat_less_numeral_power_cancel_iff)
  from round_double_scaled [OF this, of "- int k"] assms(2) show ?thesis
    by (simp add: pow2_neg_nat)
qed


lemma round_double_DBL_MAX: "round_double (- DBL_MAX) = Finite (- DBL_MAX)"
proof -
  have "- DBL_MAX = of_int (- (2 ^ 53 - 1)) * pow2 971"
    by (simp add: DBL_MAX_def pow2_def)
  moreover have "round_double (of_int (- (2 ^ 53 - 1)) * pow2 971) =
      Finite (of_int (- (2 ^ 53 - 1)) * pow2 971)"
    by (rule round_double_scaled) simp_all
  ultimately show ?thesis
    by simp
qed


lemma round_double_tie_two: "round_double (2 - 1 / 2 ^ 53) = Finite 2"
proof -
  let ?x = "2 - 1 / 2 ^ 53 :: real"
  have "binade ?x \<le> 0"
    by (rule binade_le) (simp_all add: pow2_def)
  moreover have "0 \<le> binade ?x"
    by (rule binade_ge) (simp add: pow2_def)
  ultimately have b: "binade ?x = 0"
    by simp
  have q: "quantum ?x = 1 / 2 ^ 52"
    unfolding quantum_def b by (simp add: pow2_def)
  have e: "?x / (1 / 2 ^ 52) = of_int (2 ^ 53 - 1) + 1 / 2"
    by simp
  have f: "\<lfloor>?x / (1 / 2 ^ 52)\<rfloor> = 2 ^ 53 - 1"
    unfolding e by (simp only: floor_eq_iff) simp
  have "round_half_even (?x / (1 / 2 ^ 52)) = 2 ^ 53"
    unfolding round_half_even_def Let_def f by simp
  then show ?thesis
    unfolding round_double_def Let_def q by simp
qed

subsection \<open>The loop of \<^verbatim>\<open>log_likelihood\<close>\<close>

lemma round_double_nat_plus_dyadic:
  assumes "real n + real j / 2 ^ k < 2 ^ 53 / 2 ^ k" "k \<le> 1074"
  shows "round_double (real n + real j / 2 ^ k) = Finite (real n + real j / 2 ^ k)"
proof -
  have e: "real n + real j / 2 ^ k = real (n * 2 ^ k + j) / 2 ^ k"
    by (simp add: field_simps)
  have "real (n * 2 ^ k + j) / 2 ^ k < 2 ^ 53 / 2 ^ k"
    using assms(1) by (simp only: e)
  then have "real (n * 2 ^ k + j) < 2 ^ 53"
    by (simp add: divide_less_cancel)
  then have "n * 2 ^ k + j < 2 ^ 53"
    by (metis of_nat_less_numeral_power_cancel_iff)
  then show ?thesis
    unfolding e using assms(2) by (rule round_double_dyadic)
qed

lemma count_step:
  assumes "k \<le> 1074" "real n + real j / 2 ^ k < 2 ^ 53 / 2 ^ k"
  shows "ulong_of_double (fadd (double_of_ulong n) (Finite (real j / 2 ^ k))) =
    Some (n + nat \<lfloor>real j / 2 ^ k\<rfloor>)"
proof -
  let ?r = "real j / 2 ^ k"
  have r0: "0 \<le> ?r" by simp
  have le: "(2::real) ^ 53 / 2 ^ k \<le> 2 ^ 53"
    by (simp add: divide_le_eq)
  have "real n < 2 ^ 53"
    using assms(2) r0 le by linarith
  then have "n < 2 ^ 53"
    by (metis of_nat_less_numeral_power_cancel_iff)
  then have c: "double_of_ulong n = Finite (real n)"
    unfolding double_of_ulong_def by (rule round_double_nat)
  have a: "fadd (Finite (real n)) (Finite ?r) = Finite (real n + ?r)"
    using round_double_nat_plus_dyadic [OF assms(2,1)] by simp
  have fl: "\<lfloor>real n + ?r\<rfloor> = int n + \<lfloor>?r\<rfloor>"
    by (metis floor_add_int add.commute of_int_of_nat_eq)
  have nn: "0 \<le> \<lfloor>?r\<rfloor>"
    using r0 by simp
  have "real_of_int (int n + \<lfloor>?r\<rfloor>) \<le> real n + ?r"
    using of_int_floor_le [of ?r] by simp
  moreover have "(2::real) ^ 53 < 2 ^ 64"
    by simp
  ultimately have "real_of_int (int n + \<lfloor>?r\<rfloor>) < 2 ^ 64"
    using assms(2) le by linarith
  then have lt: "int n + \<lfloor>?r\<rfloor> < 2 ^ 64"
    by (metis of_int_less_numeral_power_cancel_iff)
  have eq: "nat (int n + \<lfloor>?r\<rfloor>) = n + nat \<lfloor>?r\<rfloor>"
    using nn by (simp add: nat_add_distrib)
  show ?thesis
    unfolding c a using nn lt eq by (simp add: fl Let_def)
qed

lemma ll_loop_exact:
  assumes "d \<le> length rs" "\<forall>r\<in>set rs. \<exists>j::nat. r = real j / 2 ^ k" "k \<le> 1074"
    and "real n + (\<Sum>i<d. rs ! i) < 2 ^ 53 / 2 ^ k"
  shows "ll_loop lb (map Finite rs) d (n, l) =
    Inr (n + (\<Sum>i<d. nat \<lfloor>rs ! i\<rfloor>), ll_terms lb (map Finite rs) d l)"
  using assms(1,4)
proof (induction d arbitrary: n l)
  case 0
  then show ?case by simp
next
  case (Suc d)
  let ?r = "rs ! d"
  have dl: "d < length rs"
    using Suc.prems(1) by simp
  then obtain j :: nat where j: "?r = real j / 2 ^ k"
    using assms(2) by (metis nth_mem)
  have pos: "\<And>i. i < d \<Longrightarrow> 0 \<le> rs ! i"
  proof -
    fix i assume "i < d"
    then have "rs ! i \<in> set rs" using dl by simp
    then obtain j' :: nat where "rs ! i = real j' / 2 ^ k"
      using assms(2) by blast
    then show "0 \<le> rs ! i" by simp
  qed
  have s0: "0 \<le> (\<Sum>i<d. rs ! i)"
    by (intro sum_nonneg) (simp add: pos)
  have b1: "real n + real j / 2 ^ k < 2 ^ 53 / 2 ^ k"
    using Suc.prems(2) s0 by (simp add: j)
  have conv: "ulong_of_double (fadd (double_of_ulong n) (map Finite rs ! d)) = Some (n + nat \<lfloor>?r\<rfloor>)"
    using count_step [OF assms(3) b1] dl by (simp add: j)
  have "real (nat \<lfloor>?r\<rfloor>) \<le> ?r"
    using j by (simp add: of_nat_nat)
  then have b2: "real (n + nat \<lfloor>?r\<rfloor>) + (\<Sum>i<d. rs ! i) < 2 ^ 53 / 2 ^ k"
    using Suc.prems(2) by simp
  have dl': "d \<le> length rs" using dl by simp
  show ?case
    by (simp only: ll_loop.simps ll_terms.simps conv option.case Suc.IH [OF dl' b2])
       (simp add: add.assoc)
qed

lemma floor_sum_le:
  assumes "\<forall>r\<in>set rs. \<exists>j::nat. r = real j / 2 ^ k"
  shows "real (\<Sum>i<length rs. nat \<lfloor>rs ! i\<rfloor>) \<le> sum_list rs"
proof -
  have "\<And>i. i < length rs \<Longrightarrow> real (nat \<lfloor>rs ! i\<rfloor>) \<le> rs ! i"
  proof -
    fix i assume "i < length rs"
    then have "rs ! i \<in> set rs" by simp
    then obtain j :: nat where "rs ! i = real j / 2 ^ k"
      using assms by blast
    then show "real (nat \<lfloor>rs ! i\<rfloor>) \<le> rs ! i"
      by (simp add: of_nat_nat)
  qed
  then have "(\<Sum>i<length rs. real (nat \<lfloor>rs ! i\<rfloor>)) \<le> (\<Sum>i<length rs. rs ! i)"
    by (intro sum_mono) simp
  then show ?thesis
    using sum_nth_sum_list [of "\<lambda>r. r" rs] by simp
qed

lemma log_likelihood_exact:
  assumes "length rs = length (beta m)" "\<forall>r\<in>set rs. \<exists>j::nat. r = real j / 2 ^ k" "k \<le> 1074"
    and "sum_list rs + 1 < 2 ^ 53 / 2 ^ k"
  shows "ll_loop (log_beta m) (map Finite rs) (length rs) (0, Finite 0) =
      Inr (\<Sum>d<length rs. nat \<lfloor>rs ! d\<rfloor>,
           ll_terms (log_beta m) (map Finite rs) (length rs) (Finite 0))"
    and "log_likelihood m (map Finite rs) =
      Inr (fadd (ll_terms (log_beta m) (map Finite rs) (length rs) (Finite 0))
             (ln_gamma (Finite (real (\<Sum>d<length rs. nat \<lfloor>rs ! d\<rfloor>) + 1))))"
proof -
  let ?N = "\<Sum>d<length rs. nat \<lfloor>rs ! d\<rfloor>"
  have s: "(\<Sum>i<length rs. rs ! i) = sum_list rs"
    using sum_nth_sum_list [of "\<lambda>r. r" rs] by simp
  have "real 0 + (\<Sum>i<length rs. rs ! i) < 2 ^ 53 / 2 ^ k"
    using assms(4) by (simp add: s)
  from ll_loop_exact [OF order_refl assms(2,3) this, of "log_beta m" "Finite 0"]
  show loop: "ll_loop (log_beta m) (map Finite rs) (length rs) (0, Finite 0) =
      Inr (?N, ll_terms (log_beta m) (map Finite rs) (length rs) (Finite 0))"
    by simp
  have le: "(2::real) ^ 53 / 2 ^ k \<le> 2 ^ 53"
    by (simp add: divide_le_eq)
  have "real (?N + 1) < 2 ^ 53"
    using floor_sum_le [OF assms(2)] assms(4) le by simp
  then have N: "?N + 1 < 2 ^ 53"
    by (metis of_nat_less_numeral_power_cancel_iff)
  then have "?N + 1 < 2 ^ 64"
    by (rule less_trans) simp
  then have md: "(?N + 1) mod 2 ^ 64 = ?N + 1"
    by simp
  have c: "double_of_ulong (?N + 1) = Finite (real ?N + 1)"
    unfolding double_of_ulong_def using round_double_nat [OF N] by (simp add: add.commute)
  have "log_likelihood m (map Finite rs) =
      (case ll_loop (log_beta m) (map Finite rs) (length rs) (0, Finite 0) of
         Inl e \<Rightarrow> Inl e
       | Inr (n, l) \<Rightarrow> Inr (fadd l (ln_gamma (double_of_ulong ((n + 1) mod 2 ^ 64)))))"
    unfolding log_likelihood_def Let_def using assms(1) by (simp add: UTEXAS_ASSERT_def)
  also have "\<dots> = Inr (fadd (ll_terms (log_beta m) (map Finite rs) (length rs) (Finite 0))
             (ln_gamma (Finite (real ?N + 1))))"
    by (simp only: loop sum.case prod.case md c)
  finally show "log_likelihood m (map Finite rs) =
      Inr (fadd (ll_terms (log_beta m) (map Finite rs) (length rs) (Finite 0))
             (ln_gamma (Finite (real ?N + 1))))" .
qed

lemma ll_loop_two:
  assumes "ulong_of_double (fadd (double_of_ulong n) b) = Some n1"
    and "ulong_of_double (fadd (double_of_ulong n1) a) = Some n0"
  shows "map_sum id fst (ll_loop lb [a, b] 2 (n, l)) = Inr n0"
  using assms by (simp add: numeral_2_eq_2)



lemma ll_terms_counts:
  assumes "d \<le> length ks" "\<forall>k\<in>set ks. k + 1 < 2 ^ 53"
  shows "ll_terms lb (map (\<lambda>k. Finite (real k)) ks) d l = formula_terms lb ks d l"
  using assms(1)
proof (induction d arbitrary: l)
  case 0
  show ?case by simp
next
  case (Suc d)
  have dl: "d < length ks" using Suc.prems by simp
  then have "ks ! d + 1 < 2 ^ 53"
    using assms(2) by simp
  then have "round_double (real (ks ! d + 1)) = Finite (real (ks ! d + 1))"
    by (rule round_double_nat)
  then have a: "fadd (Finite (real (ks ! d))) (Finite 1) = Finite (real (ks ! d) + 1)"
    by (simp add: add.commute)
  have g: "ln_gamma (Finite (real (ks ! d) + 1)) = Finite (lgamma (real (ks ! d) + 1))"
    by (rule ln_gamma_pos) (simp add: add_pos_nonneg)
  have n: "map (\<lambda>k. Finite (real k)) ks ! d = Finite (real (ks ! d))"
    using dl by simp
  have dl': "d \<le> length ks" using dl by simp
  show ?case
    by (simp only: ll_terms.simps formula_terms.simps n a g Suc.IH [OF dl'])
qed

lemma elem_le_sum_list: "k \<in> set ks \<Longrightarrow> k \<le> sum_list (ks :: nat list)"
  by (induction ks) auto

lemma counts_log_likelihood:
  assumes "length ks = length (beta m)" "sum_list ks + 1 < 2 ^ 53"
  shows "log_likelihood m (map (\<lambda>k. Finite (real k)) ks) =
    Inr (fadd (formula_terms (log_beta m) ks (length ks) (Finite 0))
           (Finite (lgamma (real (sum_list ks) + 1))))"
proof -
  let ?rs = "map real ks"
  have l: "length ?rs = length (beta m)"
    using assms(1) by simp
  have p: "\<forall>r\<in>set ?rs. \<exists>j::nat. r = real j / 2 ^ 0"
    by auto
  have "real (sum_list ks + 1) < 2 ^ 53"
    using assms(2) by (metis of_nat_less_numeral_power_cancel_iff)
  then have s: "sum_list ?rs + 1 < 2 ^ 53 / 2 ^ 0"
    by (simp add: sum_list_of_nat [symmetric] del: sum_list_of_nat)
  have N: "(\<Sum>d<length ?rs. nat \<lfloor>?rs ! d\<rfloor>) = sum_list ks"
    using sum_nth_sum_list [of "\<lambda>k. k" ks] by simp
  have small: "\<forall>k\<in>set ks. k + 1 < 2 ^ 53"
  proof
    fix k assume "k \<in> set ks"
    then have "k \<le> sum_list ks" by (rule elem_le_sum_list)
    then show "k + 1 < 2 ^ 53" using assms(2) by simp
  qed
  have m: "map Finite ?rs = map (\<lambda>k. Finite (real k)) ks"
    by (simp add: o_def)
  have g: "ln_gamma (Finite (real (sum_list ks) + 1)) = Finite (lgamma (real (sum_list ks) + 1))"
    by (rule ln_gamma_pos) (simp add: add_pos_nonneg)
  have "log_likelihood m (map Finite ?rs) =
      Inr (fadd (ll_terms (log_beta m) (map Finite ?rs) (length ?rs) (Finite 0))
             (ln_gamma (Finite (real (\<Sum>d<length ?rs. nat \<lfloor>?rs ! d\<rfloor>) + 1))))"
    using l p _ s by (rule log_likelihood_exact(2)) simp
  then show ?thesis
    unfolding N m g using ll_terms_counts [OF order_refl small, of "log_beta m" "Finite 0"]
    by simp
qed

lemma nonpos_round: "x \<le> 0 \<Longrightarrow> nonpos (round_double x)"
  using round_double_nonpos [of x] by auto

lemma nonpos_fadd: "nonpos a \<Longrightarrow> nonpos b \<Longrightarrow> nonpos (fadd a b)"
  by (cases a; cases b) (simp_all add: nonpos_round)

lemma fadd_NegInf_left: "nonpos p \<Longrightarrow> fadd NegInf p = NegInf"
  by (cases p) simp_all

lemma fadd_NegInf_right: "nonpos l \<Longrightarrow> fadd l NegInf = NegInf"
  by (cases l) simp_all

lemma nonpos_fsub: "nonpos l \<Longrightarrow> 0 \<le> a \<Longrightarrow> nonpos (fsub l (Finite a))"
  unfolding fsub_def by (rule nonpos_fadd) simp_all

lemma nonpos_fmul: "y \<le> 0 \<Longrightarrow> nonpos (fmul (Finite y) (Finite (real k)))"
  by (simp add: nonpos_round mult_le_0_iff)

lemma lgamma_count_nonneg: "0 \<le> lgamma (real k + 1)"
  using lgamma_Suc [of k] by (simp add: add.commute)

lemma formula_terms_nonpos:
  assumes "\<forall>i<d. \<exists>y\<le>0. lb ! i = Finite y" "nonpos l"
  shows "nonpos (formula_terms lb ks d l)"
  using assms
proof (induction d arbitrary: l)
  case 0
  then show ?case by simp
next
  case (Suc d)
  obtain y where y: "y \<le> 0" "lb ! d = Finite y"
    using Suc.prems(1) by auto
  have "nonpos (fadd (fsub l (Finite (lgamma (real (ks ! d) + 1)))) (fmul (lb ! d) (Finite (real (ks ! d)))))"
    unfolding y(2)
    by (intro nonpos_fadd nonpos_fsub nonpos_fmul Suc.prems(2) lgamma_count_nonneg y(1))
  then show ?case
    using Suc.IH Suc.prems(1) by simp
qed

lemma formula_terms_NegInf:
  assumes "\<forall>i<d. \<exists>y\<le>0. lb ! i = Finite y"
  shows "formula_terms lb ks d NegInf = NegInf"
  using assms
proof (induction d)
  case 0
  show ?case by simp
next
  case (Suc d)
  obtain y where y: "y \<le> 0" "lb ! d = Finite y"
    using Suc.prems by auto
  have "fsub NegInf (Finite (lgamma (real (ks ! d) + 1))) = NegInf"
    by (simp add: fsub_def)
  then have "fadd (fsub NegInf (Finite (lgamma (real (ks ! d) + 1)))) (fmul (lb ! d) (Finite (real (ks ! d)))) = NegInf"
    unfolding y(2) by (simp only:) (intro fadd_NegInf_left nonpos_fmul y(1))
  then show ?case
    using Suc.IH Suc.prems by simp
qed

lemma DBL_MAX_ge: "2 ^ 1023 \<le> DBL_MAX"
proof -
  have "(1::real) \<le> 2 - 1 / 2 ^ 52"
    by simp
  then have "1 * (2::real) ^ 1023 \<le> (2 - 1 / 2 ^ 52) * 2 ^ 1023"
    by (intro mult_right_mono) simp_all
  then show ?thesis
    by (simp only: DBL_MAX_def mult_1)
qed

lemma fmul_overflow:
  assumes "2 \<le> k"
  shows "fmul (Finite (- DBL_MAX)) (Finite (real k)) = NegInf"
proof -
  have "2 ^ 1023 * 2 \<le> DBL_MAX * real k"
    using DBL_MAX_ge assms by (intro mult_mono) simp_all
  then have "- DBL_MAX * real k \<le> - (2 ^ 1024)"
    by simp
  then show ?thesis
    by (simp add: round_double_overflow_neg)
qed

lemma formula_terms_overflow:
  assumes "\<forall>i<d. \<exists>y\<le>0. lb ! i = Finite y" "d0 < d" "lb ! d0 = Finite (- DBL_MAX)"
    and "2 \<le> ks ! d0" "nonpos l"
  shows "formula_terms lb ks d l = NegInf"
  using assms(1,2,5)
proof (induction d arbitrary: l)
  case 0
  then show ?case by simp
next
  case (Suc d)
  obtain y where y: "y \<le> 0" "lb ! d = Finite y"
    using Suc.prems(1) by auto
  have lbs: "\<forall>i<d. \<exists>y\<le>0. lb ! i = Finite y"
    using Suc.prems(1) by simp
  let ?l1 = "fsub l (Finite (lgamma (real (ks ! d) + 1)))"
  let ?step = "fadd ?l1 (fmul (lb ! d) (Finite (real (ks ! d))))"
  have l1: "nonpos ?l1"
    by (intro nonpos_fsub Suc.prems(3) lgamma_count_nonneg)
  show ?case
  proof (cases "d0 = d")
    case True
    have "fmul (lb ! d) (Finite (real (ks ! d))) = NegInf"
      using fmul_overflow [OF assms(4)] assms(3) True by simp
    then have "?step = NegInf"
      using fadd_NegInf_right [OF l1] by simp
    then show ?thesis
      using formula_terms_NegInf [OF lbs, of ks] by simp
  next
    case False
    then have d0: "d0 < d" using Suc.prems(2) by simp
    have "nonpos ?step"
      unfolding y(2) by (intro nonpos_fadd l1 nonpos_fmul y(1))
    then show ?thesis
      using Suc.IH [OF lbs d0] by simp
  qed
qed

lemma fadd_nonpos_not_NaN: "nonpos l \<Longrightarrow> fadd l (Finite g) \<noteq> NaN"
  by (cases l) simp_all

lemma scaled_110:
  assumes "c < 2 ^ 53"
  shows "real c * 2 ^ 110 / quantum (real c * 2 ^ 110) \<in> \<int>" and "real c * 2 ^ 110 < 2 ^ 1024"
proof -
  have p: "pow2 110 = 2 ^ 110"
    by (simp add: pow2_def)
  have "\<bar>int c\<bar> < 2 ^ 53"
    using assms by (metis abs_of_nat of_nat_less_numeral_power_cancel_iff)
  from scaled_quantum_int [OF this, of 110]
  show "real c * 2 ^ 110 / quantum (real c * 2 ^ 110) \<in> \<int>"
    by (simp add: p)
  have "real c < 2 ^ 53"
    using assms by (metis of_nat_less_numeral_power_cancel_iff)
  then have "real c * 2 ^ 110 < 2 ^ 53 * 2 ^ 110"
    by (intro mult_strict_right_mono) simp_all
  also have "\<dots> \<le> (2::real) ^ 1024"
    by (simp only: power_add [symmetric]) simp
  finally show "real c * 2 ^ 110 < 2 ^ 1024" .
qed

lemma fadd_bounded:
  assumes "\<bar>x\<bar> \<le> real c * 2 ^ 110" "\<bar>y\<bar> \<le> 2 ^ 110" "c + 1 < 2 ^ 53"
  shows "\<exists>z. fadd (Finite x) (Finite y) = Finite z \<and> \<bar>z\<bar> \<le> real (c + 1) * 2 ^ 110"
proof -
  have "\<bar>x + y\<bar> \<le> real c * 2 ^ 110 + 2 ^ 110"
    using assms(1,2) by linarith
  also have "\<dots> = real (c + 1) * 2 ^ 110"
    by (simp add: algebra_simps)
  finally have "\<bar>x + y\<bar> \<le> real (c + 1) * 2 ^ 110" .
  from round_double_bound [OF scaled_110 [OF assms(3)] this] show ?thesis
    by simp
qed

lemma ln_fact_le: "ln (fact k) \<le> real k * real k"
proof (induction k)
  case 0
  show ?case by simp
next
  case (Suc k)
  have "ln (fact (Suc k)) = ln (real (Suc k)) + ln (fact k)"
    by (simp add: ln_mult_pos del: of_nat_Suc)
  also have "\<dots> \<le> real (Suc k) + real k * real k"
  proof -
    have "ln (real (Suc k)) \<le> real (Suc k)"
      by (rule less_imp_le, rule ln_less_self) simp
    then show ?thesis
      using Suc.IH by (rule add_mono)
  qed
  also have "\<dots> \<le> real (Suc k) * real (Suc k)"
    by (simp add: algebra_simps)
  finally show ?case .
qed

lemma lgamma_count_le:
  assumes "k < 2 ^ 53"
  shows "lgamma (real k + 1) \<le> 2 ^ 110"
proof -
  have k: "real k \<le> 2 ^ 53"
    using assms by (metis less_imp_le of_nat_less_numeral_power_cancel_iff)
  have "lgamma (real k + 1) = ln (fact k)"
    using lgamma_Suc [of k] by (simp add: add.commute)
  also have "\<dots> \<le> real k * real k"
    by (rule ln_fact_le)
  also have "\<dots> \<le> 2 ^ 53 * 2 ^ 53"
    using k by (intro mult_mono) simp_all
  also have "\<dots> \<le> (2::real) ^ 110"
    by (simp only: power_add [symmetric]) simp
  finally show ?thesis .
qed

lemma fmul_bounded:
  assumes "\<bar>y\<bar> \<le> 1074 \<or> k = 0" "k < 2 ^ 53"
  shows "\<exists>z. fmul (Finite y) (Finite (real k)) = Finite z \<and> \<bar>z\<bar> \<le> 2 ^ 110"
proof -
  have k: "real k \<le> 2 ^ 53"
    using assms(2) by (metis less_imp_le of_nat_less_numeral_power_cancel_iff)
  have "\<bar>y * real k\<bar> \<le> 1074 * 2 ^ 53"
  proof (cases "k = 0")
    case True
    then show ?thesis by simp
  next
    case False
    then have "\<bar>y\<bar> \<le> 1074" using assms(1) by simp
    then have "\<bar>y\<bar> * real k \<le> 1074 * 2 ^ 53"
      using k by (intro mult_mono) simp_all
    then show ?thesis by (simp add: abs_mult)
  qed
  also have "\<dots> \<le> real 1 * 2 ^ 110"
    by simp
  finally have "\<bar>y * real k\<bar> \<le> real 1 * 2 ^ 110" .
  from round_double_bound [OF scaled_110 [of 1] this] show ?thesis
    by simp
qed

lemma formula_terms_bounded:
  assumes "\<forall>i<d. \<exists>y. lb ! i = Finite y \<and> (\<bar>y\<bar> \<le> 1074 \<or> ks ! i = 0)"
    and "\<forall>i<d. ks ! i < 2 ^ 53" "\<bar>x\<bar> \<le> real c * 2 ^ 110" "c + 2 * d < 2 ^ 53"
  shows "\<exists>z. formula_terms lb ks d (Finite x) = Finite z \<and> \<bar>z\<bar> \<le> real (c + 2 * d) * 2 ^ 110"
  using assms
proof (induction d arbitrary: x c)
  case 0
  then show ?case by simp
next
  case (Suc d)
  obtain y where y: "lb ! d = Finite y" "\<bar>y\<bar> \<le> 1074 \<or> ks ! d = 0"
    using Suc.prems(1) by auto
  have kd: "ks ! d < 2 ^ 53"
    using Suc.prems(2) by simp
  let ?a = "lgamma (real (ks ! d) + 1)"
  have a: "\<bar>- ?a\<bar> \<le> 2 ^ 110"
    using lgamma_count_nonneg [of "ks ! d"] lgamma_count_le [OF kd] by simp
  have c1: "c + 1 < 2 ^ 53" and c2: "c + 1 + 1 < 2 ^ 53"
    using Suc.prems(4) by simp_all
  obtain z1 where z1: "fadd (Finite x) (Finite (- ?a)) = Finite z1" "\<bar>z1\<bar> \<le> real (c + 1) * 2 ^ 110"
    using fadd_bounded [OF Suc.prems(3) a c1] by blast
  obtain zp where zp: "fmul (Finite y) (Finite (real (ks ! d))) = Finite zp" "\<bar>zp\<bar> \<le> 2 ^ 110"
    using fmul_bounded [OF y(2) kd] by blast
  obtain z2 where z2: "fadd (Finite z1) (Finite zp) = Finite z2" "\<bar>z2\<bar> \<le> real (c + 1 + 1) * 2 ^ 110"
    using fadd_bounded [OF z1(2) zp(2) c2] by blast
  have "fsub (Finite x) (Finite ?a) = Finite z1"
    unfolding fsub_def dneg.simps by (rule z1(1))
  then have step: "fadd (fsub (Finite x) (Finite ?a)) (fmul (lb ! d) (Finite (real (ks ! d)))) = Finite z2"
    by (simp only: y(1) zp(1) z2(1))
  have b: "c + 1 + 1 + 2 * d < 2 ^ 53"
    using Suc.prems(4) by simp
  have "\<exists>z. formula_terms lb ks d (Finite z2) = Finite z \<and> \<bar>z\<bar> \<le> real (c + 1 + 1 + 2 * d) * 2 ^ 110"
    using Suc.prems(1,2) by (intro Suc.IH [OF _ _ z2(2) b]) simp_all
  then show ?case
    by (simp add: step)
qed

lemma round_double_0 [simp]: "round_double 0 = Finite 0"
  using round_double_nat [of 0] by simp

lemma ln_probability:
  assumes "1 / 2 ^ 1074 \<le> (b::real)" "b \<le> 1"
  shows "\<bar>ln b\<bar> \<le> 1074" and "ln b \<le> 0"
proof -
  have "(0::real) < 1 / 2 ^ 1074"
    by simp
  then have b0: "0 < b"
    using assms(1) by (rule less_le_trans)
  show le0: "ln b \<le> 0"
    using b0 assms(2) by simp
  have "ln (2::real) \<le> 2 - 1"
    by (rule ln_le_minus_one) simp
  then have l2: "1074 * ln (2::real) \<le> 1074"
    by simp
  have "ln (1 / 2 ^ 1074 :: real) = ln 1 - ln (2 ^ 1074)"
    by (rule ln_divide_pos) simp_all
  also have "\<dots> = - (1074 * ln 2)"
    by (simp only: ln_realpow ln_one)
  finally have "ln (1 / 2 ^ 1074 :: real) = - (1074 * ln 2)" .
  moreover have "ln (1 / 2 ^ 1074) \<le> ln b"
    using assms(1) b0 by (subst ln_le_cancel_iff) simp_all
  ultimately have "- 1074 \<le> ln b"
    using l2 by linarith
  then show "\<bar>ln b\<bar> \<le> 1074"
    using le0 by simp
qed

lemma log_beta_entry:
  assumes "Multinomial raw = Inr m" "d < length (beta m)"
  shows "log_beta m ! d = nan_to_num (numpy_log (beta m ! d))"
  using assms by (auto simp: Multinomial_def Let_def)

lemma probability_log_beta:
  assumes "Multinomial raw = Inr m" "list_all probability (beta m)" "d < length (beta m)"
  shows "\<exists>y\<le>0. log_beta m ! d = Finite y \<and>
    (beta m ! d = Finite 0 \<and> y = - DBL_MAX \<or> beta m ! d \<noteq> Finite 0 \<and> \<bar>y\<bar> \<le> 1074)"
proof -
  have p: "probability (beta m ! d)"
    using assms(2,3) by (simp add: list_all_length)
  then obtain b where b: "beta m ! d = Finite b" "b = 0 \<or> (1 / 2 ^ 1074 \<le> b \<and> b \<le> 1)"
    by (cases "beta m ! d") simp_all
  show ?thesis
  proof (cases "b = 0")
    case True
    then show ?thesis
      using log_beta_entry [OF assms(1,3)] b(1) DBL_MAX_pos by simp
  next
    case False
    then have r: "1 / 2 ^ 1074 \<le> b" "b \<le> 1"
      using b(2) by simp_all
    have "(0::real) < 1 / 2 ^ 1074"
      by simp
    then have "0 < b"
      using r(1) by (rule less_le_trans)
    then have "log_beta m ! d = Finite (ln b)"
      using log_beta_entry [OF assms(1,3)] b(1) by simp
    then show ?thesis
      using ln_probability [OF r] False b(1) by simp
  qed
qed

subsection \<open>Trials in categories of probability zero\<close>

lemma round_half_even_near:
  assumes "\<bar>f\<bar> < 1 / 2"
  shows "round_half_even (of_int n + f) = n"
proof (cases "0 \<le> f")
  case True
  then have fl: "\<lfloor>of_int n + f\<rfloor> = n"
    using assms by (simp only: floor_eq_iff) simp
  have "of_int n + f - of_int n < 1 / 2"
    using assms by simp
  then show ?thesis
    unfolding round_half_even_def Let_def fl by simp
next
  case False
  then have fl: "\<lfloor>of_int n + f\<rfloor> = n - 1"
    using assms by (simp only: floor_eq_iff) simp
  have "1 / 2 < of_int n + f - of_int (n - 1)"
    using assms by simp
  then show ?thesis
    unfolding round_half_even_def Let_def fl by simp
qed

lemma pow2_neq0 [simp]: "pow2 e \<noteq> 0"
  using pow2_pos [of e] by linarith

lemma DBL_MAX_scaled: "DBL_MAX = of_int (2 ^ 53 - 1) * pow2 971"
  by (simp add: DBL_MAX_def pow2_def)

lemma quantum_top:
  assumes "pow2 1023 \<le> \<bar>x\<bar>" "\<bar>x\<bar> < pow2 1024"
  shows "quantum x = pow2 971"
proof -
  have "binade x \<le> 1023"
    using assms(2) by (intro binade_le) simp_all
  moreover have "1023 \<le> binade x"
    using assms(1) by (rule binade_ge)
  ultimately have "binade x = 1023"
    by simp
  then show ?thesis
    by (simp add: quantum_def)
qed

lemma DBL_MAX_bounds: "pow2 1023 \<le> DBL_MAX - 2 ^ 969" "DBL_MAX + 2 ^ 969 < pow2 1024"
  by (simp_all add: DBL_MAX_def pow2_def)

lemma round_double_absorb:
  assumes "\<bar>e\<bar> \<le> 2 ^ 969"
  shows "round_double (- DBL_MAX + e) = Finite (- DBL_MAX)"
proof -
  let ?x = "- DBL_MAX + e"
  have e1: "- (2 ^ 969) \<le> e" "e \<le> 2 ^ 969"
    using assms by linarith+
  have "(2::real) ^ 969 < 2 ^ 1023"
    by simp
  then have "e < DBL_MAX"
    using e1(2) DBL_MAX_ge by linarith
  then have ax: "\<bar>?x\<bar> = DBL_MAX - e"
    by simp
  have q: "quantum ?x = pow2 971"
  proof (rule quantum_top)
    have "pow2 1023 \<le> DBL_MAX - e"
      using DBL_MAX_bounds(1) e1(2) by linarith
    then show "pow2 1023 \<le> \<bar>?x\<bar>"
      by (simp only: ax)
    have "DBL_MAX - e < pow2 1024"
      using DBL_MAX_bounds(2) e1(1) by linarith
    then show "\<bar>?x\<bar> < pow2 1024"
      by (simp only: ax)
  qed
  have p: "pow2 971 = 2 ^ 971"
    by (simp add: pow2_def)
  have "\<bar>e\<bar> / 2 ^ 971 \<le> 2 ^ 969 / (2 ^ 971 :: real)"
    using assms by (intro divide_right_mono) simp_all
  then have e: "\<bar>e / pow2 971\<bar> < 1 / 2"
    by (simp add: p)
  have "?x / pow2 971 = of_int (- (2 ^ 53 - 1)) + e / pow2 971"
    by (simp add: DBL_MAX_scaled field_simps)
  then have "round_half_even (?x / pow2 971) = - (2 ^ 53 - 1)"
    by (simp only: round_half_even_near [OF e])
  then have r: "round_half_even (?x / quantum ?x) = - (2 ^ 53 - 1)"
    by (simp only: q)
  have y: "quantum ?x * of_int (round_half_even (?x / quantum ?x)) = - DBL_MAX"
    unfolding r unfolding q by (simp add: DBL_MAX_scaled)
  have "\<not> 2 ^ 1024 \<le> \<bar>- DBL_MAX\<bar>"
    using DBL_MAX_bounds(2) DBL_MAX_pos by (simp add: pow2_numerals)
  then show ?thesis
    unfolding round_double_def Let_def y by simp
qed

lemma round_double_le_neg_DBL_MAX:
  assumes "x \<le> - DBL_MAX"
  shows "round_double x = NegInf \<or> (\<exists>y\<le>- DBL_MAX. round_double x = Finite y)"
proof (cases "x \<le> - (2 ^ 1024)")
  case True
  then show ?thesis
    by (simp add: round_double_overflow_neg)
next
  case False
  have x0: "x < 0"
    using assms DBL_MAX_pos by linarith
  have q: "quantum x = pow2 971"
  proof (rule quantum_top)
    show "pow2 1023 \<le> \<bar>x\<bar>"
      using DBL_MAX_ge assms x0 by (simp add: pow2_def)
    show "\<bar>x\<bar> < pow2 1024"
      using False x0 by (simp add: pow2_numerals)
  qed
  let ?r = "round_half_even (x / quantum x)"
  have "x / pow2 971 \<le> - DBL_MAX / pow2 971"
    using assms by (rule divide_right_mono) (rule less_imp_le, rule pow2_pos)
  also have "\<dots> = of_int (- (2 ^ 53 - 1))"
    by (simp add: DBL_MAX_scaled)
  finally have "round_half_even (x / pow2 971) \<le> - (2 ^ 53 - 1)"
    by (rule round_half_even_le)
  then have "real_of_int ?r \<le> of_int (- (2 ^ 53 - 1))"
    unfolding q by (simp only: of_int_le_iff)
  then have "quantum x * real_of_int ?r \<le> quantum x * of_int (- (2 ^ 53 - 1))"
    by (intro mult_left_mono) simp_all
  also have "\<dots> = - DBL_MAX"
    by (simp add: q DBL_MAX_scaled)
  finally have y: "quantum x * real_of_int ?r \<le> - DBL_MAX" .
  then have "\<not> 0 < quantum x * real_of_int ?r"
    using DBL_MAX_pos by linarith
  then show ?thesis
    using y by (simp add: round_double_def Let_def)
qed

lemma lowest_round: "x \<le> - DBL_MAX \<Longrightarrow> lowest (round_double x)"
  using round_double_le_neg_DBL_MAX [of x] by auto

lemma lowest_fsub: "lowest l \<Longrightarrow> 0 \<le> a \<Longrightarrow> lowest (fsub l (Finite a))"
  by (cases l) (simp_all add: fsub_def lowest_round)

lemma lowest_fadd: "lowest l \<Longrightarrow> nonpos p \<Longrightarrow> lowest (fadd l p)"
  by (cases l; cases p) (simp_all add: lowest_round)

lemma round_double_lowest:
  assumes "x \<le> - DBL_MAX" "y \<le> - DBL_MAX"
  shows "round_double (x + y) = NegInf"
proof -
  have "x + y \<le> - DBL_MAX + - DBL_MAX"
    using assms by (rule add_mono)
  also have "\<dots> \<le> - (2 ^ 1024)"
    using DBL_MAX_ge by simp
  finally show ?thesis
    by (rule round_double_overflow_neg)
qed

lemma fadd_lowest: "lowest a \<Longrightarrow> lowest b \<Longrightarrow> fadd a b = NegInf"
  by (cases a; cases b) (simp_all add: round_double_lowest)

lemma lowest_fmul:
  assumes "1 \<le> k"
  shows "lowest (fmul (Finite (- DBL_MAX)) (Finite (real k)))"
proof -
  have "DBL_MAX * 1 \<le> DBL_MAX * real k"
    using assms DBL_MAX_pos by (intro mult_left_mono) simp_all
  then have "- DBL_MAX * real k \<le> - DBL_MAX"
    by simp
  then show ?thesis
    by (simp add: lowest_round)
qed

lemma formula_terms_second:
  assumes "\<forall>i<d. \<exists>y\<le>0. lb ! i = Finite y" "d0 < d" "lb ! d0 = Finite (- DBL_MAX)"
    and "1 \<le> ks ! d0" "lowest l"
  shows "formula_terms lb ks d l = NegInf"
  using assms(1,2,5)
proof (induction d arbitrary: l)
  case 0
  then show ?case by simp
next
  case (Suc d)
  obtain y where y: "y \<le> 0" "lb ! d = Finite y"
    using Suc.prems(1) by auto
  have lbs: "\<forall>i<d. \<exists>y\<le>0. lb ! i = Finite y"
    using Suc.prems(1) by simp
  let ?l1 = "fsub l (Finite (lgamma (real (ks ! d) + 1)))"
  let ?step = "fadd ?l1 (fmul (lb ! d) (Finite (real (ks ! d))))"
  have l1: "lowest ?l1"
    by (intro lowest_fsub Suc.prems(3) lgamma_count_nonneg)
  show ?case
  proof (cases "d0 = d")
    case True
    have "lowest (fmul (lb ! d) (Finite (real (ks ! d))))"
      using lowest_fmul [OF assms(4)] assms(3) True by simp
    then have "?step = NegInf"
      using l1 by (intro fadd_lowest)
    then show ?thesis
      using formula_terms_NegInf [OF lbs, of ks] by simp
  next
    case False
    then have d0: "d0 < d" using Suc.prems(2) by simp
    have "lowest ?step"
      unfolding y(2) by (intro lowest_fadd l1 nonpos_fmul y(1))
    then show ?thesis
      using Suc.IH [OF lbs d0] by simp
  qed
qed

lemma pow_110_969:
  assumes "c < 2 ^ 53"
  shows "real c * 2 ^ 110 \<le> 2 ^ 969"
proof -
  have "real c \<le> 2 ^ 53"
    using assms by (metis less_imp_le of_nat_less_numeral_power_cancel_iff)
  then have "real c * 2 ^ 110 \<le> 2 ^ 53 * 2 ^ 110"
    by (intro mult_right_mono) simp_all
  also have "\<dots> \<le> (2::real) ^ 969"
    by (simp only: power_add [symmetric]) simp
  finally show ?thesis .
qed

lemma fadd_absorb: "\<bar>e\<bar> \<le> 2 ^ 969 \<Longrightarrow> fadd (Finite (- DBL_MAX)) (Finite e) = Finite (- DBL_MAX)"
  using round_double_absorb [of e] by simp

lemma fadd_absorb_left: "\<bar>e\<bar> \<le> 2 ^ 969 \<Longrightarrow> fadd (Finite e) (Finite (- DBL_MAX)) = Finite (- DBL_MAX)"
  using round_double_absorb [of e] by (simp add: add.commute)

lemma fsub_absorb: "\<bar>a\<bar> \<le> 2 ^ 969 \<Longrightarrow> fsub (Finite (- DBL_MAX)) (Finite a) = Finite (- DBL_MAX)"
  using fadd_absorb [of "- a"] by (simp add: fsub_def)

lemma step_small:
  assumes "y \<le> 0" "\<bar>y\<bar> \<le> 1074 \<or> k = 0" "k < 2 ^ 53"
    and "x \<le> 0" "\<bar>x\<bar> \<le> real c * 2 ^ 110" "c + 2 < 2 ^ 53"
  shows "\<exists>z\<le>0. fadd (fsub (Finite x) (Finite (lgamma (real k + 1)))) (fmul (Finite y) (Finite (real k)))
           = Finite z \<and> \<bar>z\<bar> \<le> real (c + 2) * 2 ^ 110"
proof -
  let ?a = "lgamma (real k + 1)"
  have a: "\<bar>- ?a\<bar> \<le> 2 ^ 110"
    using lgamma_count_nonneg [of k] lgamma_count_le [OF assms(3)] by simp
  have c1: "c + 1 < 2 ^ 53" and c2: "c + 1 + 1 < 2 ^ 53"
    using assms(6) by simp_all
  obtain z1 where z1: "fadd (Finite x) (Finite (- ?a)) = Finite z1" "\<bar>z1\<bar> \<le> real (c + 1) * 2 ^ 110"
    using fadd_bounded [OF assms(5) a c1] by blast
  obtain zp where zp: "fmul (Finite y) (Finite (real k)) = Finite zp" "\<bar>zp\<bar> \<le> 2 ^ 110"
    using fmul_bounded [OF assms(2,3)] by blast
  obtain z2 where z2: "fadd (Finite z1) (Finite zp) = Finite z2" "\<bar>z2\<bar> \<le> real (c + 1 + 1) * 2 ^ 110"
    using fadd_bounded [OF z1(2) zp(2) c2] by blast
  have s1: "fsub (Finite x) (Finite ?a) = Finite z1"
    unfolding fsub_def dneg.simps by (rule z1(1))
  have step: "fadd (fsub (Finite x) (Finite ?a)) (fmul (Finite y) (Finite (real k))) = Finite z2"
    by (simp only: s1 zp(1) z2(1))
  have "nonpos (Finite x)"
    using assms(4) by simp
  then have "nonpos (fadd (fsub (Finite x) (Finite ?a)) (fmul (Finite y) (Finite (real k))))"
    by (intro nonpos_fadd nonpos_fsub nonpos_fmul lgamma_count_nonneg assms(1))
  then have "z2 \<le> 0"
    by (simp only: step nonpos.simps)
  moreover have "c + 1 + 1 = c + 2"
    by simp
  ultimately show ?thesis
    using step z2(2) by (simp only:) blast
qed

lemma step_hit:
  assumes "k = 1" "x \<le> 0" "\<bar>x\<bar> \<le> real c * 2 ^ 110" "c + 1 < 2 ^ 53"
  shows "fadd (fsub (Finite x) (Finite (lgamma (real k + 1)))) (fmul (Finite (- DBL_MAX)) (Finite (real k)))
           = Finite (- DBL_MAX)"
proof -
  let ?a = "lgamma (real k + 1)"
  have k: "k < 2 ^ 53"
    using assms(1) by simp
  have a: "\<bar>- ?a\<bar> \<le> 2 ^ 110"
    using lgamma_count_nonneg [of k] lgamma_count_le [OF k] by simp
  obtain z1 where z1: "fadd (Finite x) (Finite (- ?a)) = Finite z1" "\<bar>z1\<bar> \<le> real (c + 1) * 2 ^ 110"
    using fadd_bounded [OF assms(3) a assms(4)] by blast
  have s1: "fsub (Finite x) (Finite ?a) = Finite z1"
    unfolding fsub_def dneg.simps by (rule z1(1))
  have "\<bar>z1\<bar> \<le> 2 ^ 969"
    using z1(2) pow_110_969 [OF assms(4)] by linarith
  then have s2: "fadd (Finite z1) (Finite (- DBL_MAX)) = Finite (- DBL_MAX)"
    by (rule fadd_absorb_left)
  have s3: "fmul (Finite (- DBL_MAX)) (Finite (real k)) = Finite (- DBL_MAX)"
    using round_double_DBL_MAX by (simp add: assms(1))
  show ?thesis
    by (simp only: s1 s3 s2)
qed

lemma formula_terms_stay:
  assumes "\<forall>i<d. \<exists>y\<le>0. lb ! i = Finite y \<and> (\<bar>y\<bar> \<le> 1074 \<or> ks ! i = 0)"
    and "\<forall>i<d. ks ! i < 2 ^ 53"
  shows "formula_terms lb ks d (Finite (- DBL_MAX)) = Finite (- DBL_MAX)"
  using assms
proof (induction d)
  case 0
  show ?case by simp
next
  case (Suc d)
  obtain y where y: "y \<le> 0" "lb ! d = Finite y" "\<bar>y\<bar> \<le> 1074 \<or> ks ! d = 0"
    using Suc.prems(1) by auto
  have kd: "ks ! d < 2 ^ 53"
    using Suc.prems(2) by simp
  let ?a = "lgamma (real (ks ! d) + 1)"
  have p: "(2::real) ^ 110 \<le> 2 ^ 969"
    by simp
  have "\<bar>?a\<bar> \<le> 2 ^ 110"
    using lgamma_count_nonneg [of "ks ! d"] lgamma_count_le [OF kd] by simp
  then have "\<bar>?a\<bar> \<le> 2 ^ 969"
    using p by linarith
  then have s1: "fsub (Finite (- DBL_MAX)) (Finite ?a) = Finite (- DBL_MAX)"
    by (rule fsub_absorb)
  obtain zp where zp: "fmul (Finite y) (Finite (real (ks ! d))) = Finite zp" "\<bar>zp\<bar> \<le> 2 ^ 110"
    using fmul_bounded [OF y(3) kd] by blast
  have "\<bar>zp\<bar> \<le> 2 ^ 969"
    using zp(2) p by linarith
  then have s2: "fadd (Finite (- DBL_MAX)) (Finite zp) = Finite (- DBL_MAX)"
    by (rule fadd_absorb)
  have step: "fadd (fsub (Finite (- DBL_MAX)) (Finite ?a)) (fmul (lb ! d) (Finite (real (ks ! d))))
      = Finite (- DBL_MAX)"
    by (simp only: y(2) s1 zp(1) s2)
  have "formula_terms lb ks d (Finite (- DBL_MAX)) = Finite (- DBL_MAX)"
    using Suc.prems by (intro Suc.IH) simp_all
  then show ?case
    by (simp add: step)
qed

lemma sum_pos_index:
  assumes "0 < (\<Sum>i<d. f i :: nat)"
  shows "\<exists>i<d. 0 < f i"
proof (rule ccontr)
  assume "\<not> (\<exists>i<d. 0 < f i)"
  then have "(\<Sum>i<d. f i) = 0"
    by simp
  then show False
    using assms by simp
qed

lemma nat_sum_one:
  assumes "a + b = (1::nat)" "b \<noteq> 0"
  shows "b = 1" and "a = 0"
  using assms by simp_all

lemma formula_terms_one:
  assumes "\<forall>i<d. \<exists>y\<le>0. lb ! i = Finite y \<and>
             (b ! i = Finite 0 \<and> y = - DBL_MAX \<or> b ! i \<noteq> Finite 0 \<and> \<bar>y\<bar> \<le> 1074)"
    and "\<forall>i<d. ks ! i < 2 ^ 53" "x \<le> 0" "\<bar>x\<bar> \<le> real c * 2 ^ 110" "c + 2 * d < 2 ^ 53"
    and "(\<Sum>i<d. if b ! i = Finite 0 then ks ! i else 0) = 1"
  shows "formula_terms lb ks d (Finite x) = Finite (- DBL_MAX)"
  using assms
proof (induction d arbitrary: x c)
  case 0
  then show ?case by simp
next
  case (Suc d)
  let ?f = "\<lambda>i. if b ! i = Finite 0 then ks ! i else 0"
  obtain y where y: "y \<le> 0" "lb ! d = Finite y"
    "b ! d = Finite 0 \<and> y = - DBL_MAX \<or> b ! d \<noteq> Finite 0 \<and> \<bar>y\<bar> \<le> 1074"
    using Suc.prems(1) by auto
  have lbs: "\<forall>i<d. \<exists>y\<le>0. lb ! i = Finite y \<and>
             (b ! i = Finite 0 \<and> y = - DBL_MAX \<or> b ! i \<noteq> Finite 0 \<and> \<bar>y\<bar> \<le> 1074)"
    using Suc.prems(1) by simp
  have kss: "\<forall>i<d. ks ! i < 2 ^ 53"
    using Suc.prems(2) by simp
  have kd: "ks ! d < 2 ^ 53"
    using Suc.prems(2) by simp
  have z: "(\<Sum>i<d. ?f i) + ?f d = 1"
    using Suc.prems(6) by simp
  let ?step = "fadd (fsub (Finite x) (Finite (lgamma (real (ks ! d) + 1))))
                 (fmul (lb ! d) (Finite (real (ks ! d))))"
  show ?case
  proof (cases "?f d = 0")
    case True
    then have "\<bar>y\<bar> \<le> 1074 \<or> ks ! d = 0"
      using y(3) by (auto split: if_splits)
    moreover have c2: "c + 2 < 2 ^ 53"
      using Suc.prems(5) by simp
    ultimately obtain z2 where z2: "z2 \<le> 0" "?step = Finite z2" "\<bar>z2\<bar> \<le> real (c + 2) * 2 ^ 110"
      using step_small [OF y(1) _ kd Suc.prems(3,4)] unfolding y(2) by blast
    have b: "c + 2 + 2 * d < 2 ^ 53"
      using Suc.prems(5) by simp
    have s: "(\<Sum>i<d. ?f i) = 1"
      using z True by simp
    have "formula_terms lb ks d (Finite z2) = Finite (- DBL_MAX)"
      using lbs kss z2(1,3) b s by (rule Suc.IH)
    then show ?thesis
      by (simp add: z2(2))
  next
    case False
    have fd: "?f d = 1" and s: "(\<Sum>i<d. ?f i) = 0"
      using nat_sum_one [OF z False] by - assumption+
    have one: "ks ! d = 1" and zero: "b ! d = Finite 0"
      using fd by (simp_all split: if_splits)
    have lbd: "lb ! d = Finite (- DBL_MAX)"
      using y(2,3) zero by simp
    have c1: "c + 1 < 2 ^ 53"
      using Suc.prems(5) by simp
    have step: "?step = Finite (- DBL_MAX)"
      unfolding lbd using one Suc.prems(3,4) c1 by (rule step_hit)
    have st: "\<forall>i<d. \<exists>y\<le>0. lb ! i = Finite y \<and> (\<bar>y\<bar> \<le> 1074 \<or> ks ! i = 0)"
    proof (intro allI impI)
      fix i assume i: "i < d"
      obtain yi where yi: "yi \<le> 0" "lb ! i = Finite yi"
        "b ! i = Finite 0 \<and> yi = - DBL_MAX \<or> b ! i \<noteq> Finite 0 \<and> \<bar>yi\<bar> \<le> 1074"
        using lbs i by blast
      have "?f i = 0"
        using s i by simp
      then have "\<bar>yi\<bar> \<le> 1074 \<or> ks ! i = 0"
        using yi(3) by (auto split: if_splits)
      then show "\<exists>y\<le>0. lb ! i = Finite y \<and> (\<bar>y\<bar> \<le> 1074 \<or> ks ! i = 0)"
        using yi(1,2) by blast
    qed
    have "formula_terms lb ks d (Finite (- DBL_MAX)) = Finite (- DBL_MAX)"
      using st kss by (rule formula_terms_stay)
    then show ?thesis
      by (simp add: step)
  qed
qed

lemma formula_terms_many:
  assumes "\<forall>i<d. \<exists>y\<le>0. lb ! i = Finite y \<and>
             (b ! i = Finite 0 \<and> y = - DBL_MAX \<or> b ! i \<noteq> Finite 0 \<and> \<bar>y\<bar> \<le> 1074)"
    and "\<forall>i<d. ks ! i < 2 ^ 53" "x \<le> 0" "\<bar>x\<bar> \<le> real c * 2 ^ 110" "c + 2 * d < 2 ^ 53"
    and "2 \<le> (\<Sum>i<d. if b ! i = Finite 0 then ks ! i else 0)"
  shows "formula_terms lb ks d (Finite x) = NegInf"
  using assms
proof (induction d arbitrary: x c)
  case 0
  then show ?case by simp
next
  case (Suc d)
  let ?f = "\<lambda>i. if b ! i = Finite 0 then ks ! i else 0"
  obtain y where y: "y \<le> 0" "lb ! d = Finite y"
    "b ! d = Finite 0 \<and> y = - DBL_MAX \<or> b ! d \<noteq> Finite 0 \<and> \<bar>y\<bar> \<le> 1074"
    using Suc.prems(1) by auto
  have lbs: "\<forall>i<d. \<exists>y\<le>0. lb ! i = Finite y \<and>
             (b ! i = Finite 0 \<and> y = - DBL_MAX \<or> b ! i \<noteq> Finite 0 \<and> \<bar>y\<bar> \<le> 1074)"
    using Suc.prems(1) by simp
  have np: "\<forall>i<d. \<exists>y\<le>0. lb ! i = Finite y"
    using lbs by blast
  have npS: "\<forall>i<Suc d. \<exists>y\<le>0. lb ! i = Finite y"
    using Suc.prems(1) by blast
  have kss: "\<forall>i<d. ks ! i < 2 ^ 53"
    using Suc.prems(2) by simp
  have kd: "ks ! d < 2 ^ 53"
    using Suc.prems(2) by simp
  have z: "2 \<le> (\<Sum>i<d. ?f i) + ?f d"
    using Suc.prems(6) by simp
  let ?step = "fadd (fsub (Finite x) (Finite (lgamma (real (ks ! d) + 1))))
                 (fmul (lb ! d) (Finite (real (ks ! d))))"
  consider (none) "?f d = 0" | (one) "?f d = 1" | (more) "2 \<le> ?f d"
    by linarith
  then show ?case
  proof cases
    case none
    then have "\<bar>y\<bar> \<le> 1074 \<or> ks ! d = 0"
      using y(3) by (auto split: if_splits)
    moreover have c2: "c + 2 < 2 ^ 53"
      using Suc.prems(5) by simp
    ultimately obtain z2 where z2: "z2 \<le> 0" "?step = Finite z2" "\<bar>z2\<bar> \<le> real (c + 2) * 2 ^ 110"
      using step_small [OF y(1) _ kd Suc.prems(3,4)] unfolding y(2) by blast
    have b: "c + 2 + 2 * d < 2 ^ 53"
      using Suc.prems(5) by simp
    have s: "2 \<le> (\<Sum>i<d. ?f i)"
      using z none by simp
    have "formula_terms lb ks d (Finite z2) = NegInf"
      using lbs kss z2(1,3) b s by (rule Suc.IH)
    then show ?thesis
      by (simp add: z2(2))
  next
    case one
    then have k1: "ks ! d = 1" and zero: "b ! d = Finite 0"
      by (simp_all split: if_splits)
    have lbd: "lb ! d = Finite (- DBL_MAX)"
      using y(2,3) zero by simp
    have c1: "c + 1 < 2 ^ 53"
      using Suc.prems(5) by simp
    have step: "?step = Finite (- DBL_MAX)"
      unfolding lbd using k1 Suc.prems(3,4) c1 by (rule step_hit)
    have "0 < (\<Sum>i<d. ?f i)"
      using z one by simp
    then obtain d0 where d0: "d0 < d" "0 < ?f d0"
      using sum_pos_index [of ?f d] by blast
    then have h: "b ! d0 = Finite 0" "1 \<le> ks ! d0"
      by (simp_all split: if_splits)
    obtain y0 where "lb ! d0 = Finite y0"
      "b ! d0 = Finite 0 \<and> y0 = - DBL_MAX \<or> b ! d0 \<noteq> Finite 0 \<and> \<bar>y0\<bar> \<le> 1074"
      using lbs d0(1) by blast
    then have l0: "lb ! d0 = Finite (- DBL_MAX)"
      using h(1) by simp
    have low: "lowest (Finite (- DBL_MAX))"
      by simp
    have "formula_terms lb ks d (Finite (- DBL_MAX)) = NegInf"
      using np d0(1) l0 h(2) low by (rule formula_terms_second)
    then show ?thesis
      by (simp add: step)
  next
    case more
    then have k2: "2 \<le> ks ! d" and zero: "b ! d = Finite 0"
      by (simp_all split: if_splits)
    have lbd: "lb ! d = Finite (- DBL_MAX)"
      using y(2,3) zero by simp
    have dS: "d < Suc d"
      by simp
    have px: "nonpos (Finite x)"
      using Suc.prems(3) by simp
    show ?thesis
      using npS dS lbd k2 px by (rule formula_terms_overflow)
  qed
qed

section \<open>The claims\<close>




text \<open>
  C2 (as amended). For every instance whose \<^verbatim>\<open>_beta\<close> holds probabilities and every sample
  of length \<open>D\<close> (below \<open>2\<^sup>5\<^sup>2\<close>) whose entries are non-negative integers with a total
  below \<open>2\<^sup>5\<^sup>3 - 1\<close>, the result of \<^verbatim>\<open>log_likelihood\<close> goes by the number of trials of
  the sample in categories with \<open>beta[d] = 0\<close>: with two or more it is negative infinity, by
  overflow; with exactly one it is \<open>- DBL_MAX\<close>, a finite number; with none it is a finite
  number; and it is never NaN.
\<close>

theorem log_likelihood_finite:
  assumes "Multinomial raw = Inr m" "list_all probability (beta m)"
    and "length ks = length (beta m)" "sum_list ks + 1 < 2 ^ 53" "length ks < 2 ^ 52"
  shows "(2 \<le> zero_probability_trials (beta m) ks \<longrightarrow>
            log_likelihood m (map (\<lambda>k. Finite (real k)) ks) = Inr NegInf) \<and>
         (zero_probability_trials (beta m) ks = 1 \<longrightarrow>
            log_likelihood m (map (\<lambda>k. Finite (real k)) ks) = Inr (Finite (- DBL_MAX))) \<and>
         (zero_probability_trials (beta m) ks = 0 \<longrightarrow>
            (\<exists>v. log_likelihood m (map (\<lambda>k. Finite (real k)) ks) = Inr (Finite v))) \<and>
         (\<exists>x. log_likelihood m (map (\<lambda>k. Finite (real k)) ks) = Inr x \<and> x \<noteq> NaN)"
proof -
  let ?lb = "log_beta m" and ?D = "length ks"
  let ?g = "lgamma (real (sum_list ks) + 1)"
  let ?t = "formula_terms ?lb ks ?D (Finite 0)"
  let ?z = "\<Sum>i<?D. if beta m ! i = Finite 0 then ks ! i else 0"
  have res: "log_likelihood m (map (\<lambda>k. Finite (real k)) ks) = Inr (fadd ?t (Finite ?g))"
    using assms(3,4) by (rule counts_log_likelihood)
  have lb: "\<forall>i<?D. \<exists>y\<le>0. ?lb ! i = Finite y \<and>
      (beta m ! i = Finite 0 \<and> y = - DBL_MAX \<or> beta m ! i \<noteq> Finite 0 \<and> \<bar>y\<bar> \<le> 1074)"
    using probability_log_beta [OF assms(1,2)] assms(3) by simp
  have np: "\<forall>i<?D. \<exists>y\<le>0. ?lb ! i = Finite y"
    using lb by blast
  have t: "nonpos ?t"
    using np by (rule formula_terms_nonpos) simp
  have h2: "\<forall>i<?D. ks ! i < 2 ^ 53"
  proof (intro allI impI)
    fix i assume "i < ?D"
    then have "ks ! i \<le> sum_list ks"
      by (intro elem_le_sum_list) simp
    then show "ks ! i < 2 ^ 53"
      using assms(4) by simp
  qed
  have x0: "(0::real) \<le> 0" and h3: "\<bar>0::real\<bar> \<le> real 0 * 2 ^ 110"
    by simp_all
  have h4: "0 + 2 * ?D < 2 ^ 53"
    using assms(5) by simp
  have "sum_list ks < 2 ^ 53"
    using assms(4) by simp
  then have g: "\<bar>?g\<bar> \<le> 2 ^ 110"
    using lgamma_count_nonneg [of "sum_list ks"] lgamma_count_le [of "sum_list ks"] by simp
  have a: "2 \<le> zero_probability_trials (beta m) ks \<longrightarrow>
      log_likelihood m (map (\<lambda>k. Finite (real k)) ks) = Inr NegInf"
  proof
    assume "2 \<le> zero_probability_trials (beta m) ks"
    then have z: "2 \<le> ?z"
      by (simp only: zero_probability_trials_def)
    have "?t = NegInf"
      using lb h2 x0 h3 h4 z by (rule formula_terms_many)
    then show "log_likelihood m (map (\<lambda>k. Finite (real k)) ks) = Inr NegInf"
      by (simp add: res)
  qed
  have b: "zero_probability_trials (beta m) ks = 1 \<longrightarrow>
      log_likelihood m (map (\<lambda>k. Finite (real k)) ks) = Inr (Finite (- DBL_MAX))"
  proof
    assume "zero_probability_trials (beta m) ks = 1"
    then have z: "?z = 1"
      by (simp only: zero_probability_trials_def)
    have t1: "?t = Finite (- DBL_MAX)"
      using lb h2 x0 h3 h4 z by (rule formula_terms_one)
    have "(2::real) ^ 110 \<le> 2 ^ 969"
      by simp
    then have "\<bar>?g\<bar> \<le> 2 ^ 969"
      using g by linarith
    then have "fadd (Finite (- DBL_MAX)) (Finite ?g) = Finite (- DBL_MAX)"
      by (rule fadd_absorb)
    then show "log_likelihood m (map (\<lambda>k. Finite (real k)) ks) = Inr (Finite (- DBL_MAX))"
      by (simp only: res t1)
  qed
  have c: "zero_probability_trials (beta m) ks = 0 \<longrightarrow>
      (\<exists>v. log_likelihood m (map (\<lambda>k. Finite (real k)) ks) = Inr (Finite v))"
  proof
    assume "zero_probability_trials (beta m) ks = 0"
    then have z: "?z = 0"
      by (simp only: zero_probability_trials_def)
    have h1: "\<forall>i<?D. \<exists>y. ?lb ! i = Finite y \<and> (\<bar>y\<bar> \<le> 1074 \<or> ks ! i = 0)"
    proof (intro allI impI)
      fix i assume i: "i < ?D"
      obtain y where y: "?lb ! i = Finite y"
        "beta m ! i = Finite 0 \<and> y = - DBL_MAX \<or> beta m ! i \<noteq> Finite 0 \<and> \<bar>y\<bar> \<le> 1074"
        using lb i by blast
      have "(if beta m ! i = Finite 0 then ks ! i else 0) = 0"
        using z i by simp
      then have "\<bar>y\<bar> \<le> 1074 \<or> ks ! i = 0"
        using y(2) by (auto split: if_splits)
      then show "\<exists>y. ?lb ! i = Finite y \<and> (\<bar>y\<bar> \<le> 1074 \<or> ks ! i = 0)"
        using y(1) by blast
    qed
    from formula_terms_bounded [OF h1 h2 h3 h4]
    obtain w where w: "?t = Finite w" "\<bar>w\<bar> \<le> real (0 + 2 * ?D) * 2 ^ 110"
      by blast
    have c: "0 + 2 * ?D + 1 < 2 ^ 53"
      using assms(5) by simp
    from fadd_bounded [OF w(2) g c]
    obtain v where "fadd (Finite w) (Finite ?g) = Finite v"
      by blast
    then show "\<exists>v. log_likelihood m (map (\<lambda>k. Finite (real k)) ks) = Inr (Finite v)"
      by (simp add: res w(1))
  qed
  have d: "\<exists>x. log_likelihood m (map (\<lambda>k. Finite (real k)) ks) = Inr x \<and> x \<noteq> NaN"
    using fadd_nonpos_not_NaN [OF t, of ?g] by (simp add: res)
  show ?thesis
    using a b c d by (intro conjI)
qed

text \<open>
  For \<open>beta = [1, 0]\<close>: negative infinity at \<open>sample = [0, 2]\<close>, \<open>- DBL_MAX\<close> at
  \<open>sample = [3, 1]\<close>, a finite number at \<open>sample = [5, 0]\<close>.
\<close>

theorem log_likelihood_finite_witness:
  "Multinomial [Finite 1, Finite 0] = Inr certain_first \<and>
   list_all probability (beta certain_first) \<and>
   zero_probability_trials (beta certain_first) [0, 2] = 2 \<and>
   log_likelihood certain_first [Finite 0, Finite 2] = Inr NegInf \<and>
   zero_probability_trials (beta certain_first) [3, 1] = 1 \<and>
   log_likelihood certain_first [Finite 3, Finite 1] = Inr (Finite (- DBL_MAX)) \<and>
   zero_probability_trials (beta certain_first) [5, 0] = 0 \<and>
   (\<exists>v. log_likelihood certain_first [Finite 5, Finite 0] = Inr (Finite v)) \<and>
   (\<exists>x. log_likelihood certain_first [Finite 5, Finite 0] = Inr x \<and> x \<noteq> NaN)"
proof -
  note M = Multinomial_certain_first
  have p: "list_all probability (beta certain_first)"
    by (simp add: certain_first_def)
  have l: "length [0, 2 :: nat] = length (beta certain_first)"
    "length [3, 1 :: nat] = length (beta certain_first)"
    "length [5, 0 :: nat] = length (beta certain_first)"
    by (simp_all add: certain_first_def)
  have s: "sum_list [0, 2 :: nat] + 1 < 2 ^ 53" "sum_list [3, 1 :: nat] + 1 < 2 ^ 53"
    "sum_list [5, 0 :: nat] + 1 < 2 ^ 53"
    by simp_all
  have D: "length [0, 2 :: nat] < 2 ^ 52" "length [3, 1 :: nat] < 2 ^ 52"
    "length [5, 0 :: nat] < 2 ^ 52"
    by simp_all
  have z: "zero_probability_trials (beta certain_first) [0, 2] = 2"
    "zero_probability_trials (beta certain_first) [3, 1] = 1"
    "zero_probability_trials (beta certain_first) [5, 0] = 0"
    by (simp_all add: zero_probability_trials_def certain_first_def)
  have a: "log_likelihood certain_first [Finite 0, Finite 2] = Inr NegInf"
    using log_likelihood_finite [OF M p l(1) s(1) D(1)] z(1) by simp
  have b: "log_likelihood certain_first [Finite 3, Finite 1] = Inr (Finite (- DBL_MAX))"
    using log_likelihood_finite [OF M p l(2) s(2) D(2)] z(2) by simp
  have c: "(\<exists>v. log_likelihood certain_first [Finite 5, Finite 0] = Inr (Finite v)) \<and>
      (\<exists>x. log_likelihood certain_first [Finite 5, Finite 0] = Inr x \<and> x \<noteq> NaN)"
    using log_likelihood_finite [OF M p l(3) s(3) D(3)] z(3) by simp
  show ?thesis
    using M p z a b c by (intro conjI) simp_all
qed

text \<open>
  C2 as stated fails at its own example, a single trial in a category of probability
  zero: for \<open>beta = [1, 0]\<close> and \<open>sample = [0, 1]\<close> the result is \<open>- DBL_MAX\<close>, a finite
  number, not negative infinity.
\<close>

theorem log_likelihood_zero_probability_counterexample:
  "Multinomial [Finite 1, Finite 0] = Inr certain_first \<and>
   log_likelihood certain_first [Finite 0, Finite 1] = Inr (Finite (- DBL_MAX)) \<and>
   log_likelihood certain_first [Finite 0, Finite 1] \<noteq> Inr NegInf"
proof -
  have l: "length [0, 1 :: nat] = length (beta certain_first)"
    by (simp add: certain_first_def)
  have s: "sum_list [0, 1 :: nat] + 1 < 2 ^ 53"
    by simp
  have "log_likelihood certain_first [Finite 0, Finite 1] = Inr (Finite (- DBL_MAX))"
    using counts_log_likelihood [OF l s] round_double_DBL_MAX
    by (simp add: certain_first_def numeral_2_eq_2 fsub_def lgamma_numerals)
  then show ?thesis
    using Multinomial_certain_first by simp
qed

text \<open>
  C3 (as amended). After construction, for every index \<open>d\<close>: if \<open>beta[d] = 0\<close> then
  \<open>log_beta[d]\<close> is \<open>- DBL_MAX\<close>, the most negative finite double (not negative
  infinity, not NaN and not \<open>0\<close>), and if \<open>beta[d] > 0\<close> then \<open>log_beta[d]\<close> is the
  natural logarithm of \<open>beta[d]\<close>.
\<close>

theorem log_beta_values:
  assumes "Multinomial raw = Inr m" "d < length (beta m)"
  shows "(beta m ! d = Finite 0 \<longrightarrow> log_beta m ! d = Finite (- DBL_MAX)) \<and>
         (\<forall>x. 0 < x \<and> beta m ! d = Finite x \<longrightarrow> log_beta m ! d = Finite (ln x))"
  using assms by (auto simp: Multinomial_def Let_def)

theorem log_beta_values_witness:
  "Multinomial [Finite 1, Finite 0] = Inr certain_first \<and>
   (1::nat) < length (beta certain_first) \<and>
   beta certain_first ! 1 = Finite 0 \<and> log_beta certain_first ! 1 = Finite (- DBL_MAX) \<and>
   beta certain_first ! 0 = Finite 1 \<and> log_beta certain_first ! 0 = Finite (ln 1)"
proof -
  have l: "0 < length (beta certain_first)" "1 < length (beta certain_first)"
    by (simp_all add: certain_first_def)
  have b: "beta certain_first ! 1 = Finite 0" "(0::real) < 1 \<and> beta certain_first ! 0 = Finite 1"
    by (simp_all add: certain_first_def)
  show ?thesis
    using log_beta_values [OF Multinomial_certain_first l(2)]
      log_beta_values [OF Multinomial_certain_first l(1)] b l
    by (simp add: Multinomial_certain_first)
qed

text \<open>
  C3 as stated fails for \<open>beta = [1, 0]\<close>: \<open>log 0 = -inf\<close>, which
  \<^verbatim>\<open>numpy.nan_to_num\<close> replaces by \<open>- DBL_MAX\<close>, not by \<open>0\<close>.
\<close>

theorem log_beta_zero_counterexample:
  "Multinomial [Finite 1, Finite 0] = Inr certain_first \<and>
   beta certain_first ! 1 = Finite 0 \<and>
   log_beta certain_first ! 1 = Finite (- DBL_MAX) \<and>
   log_beta certain_first ! 1 \<noteq> Finite 0"
  using DBL_MAX_pos by (simp add: Multinomial_certain_first) (simp add: certain_first_def)

text \<open>
  C5 (as amended). Construction never signals an error: for every raw parameter
  vector, also one with a negative entry or with sum zero, it returns an instance
  whose two vectors have the length of the raw vector.
\<close>

theorem construction_always_succeeds:
  "\<exists>m. Multinomial raw = Inr m \<and> length (beta m) = length raw \<and> length (log_beta m) = length raw"
  by (simp add: Multinomial_def Let_def)

theorem construction_always_succeeds_witness:
  "\<exists>m. Multinomial [Finite 2, Finite 6] = Inr m \<and>
     length (beta m) = length [Finite 2, Finite 6] \<and>
     length (log_beta m) = length [Finite 2, Finite 6]"
  by (rule construction_always_succeeds)

text \<open>
  C5 as stated fails: the raw vector \<open>[0]\<close>, of sum zero, gives \<open>beta = [NaN]\<close> and
  \<open>log_beta = [0]\<close>, and the raw vector \<open>[-1, 2]\<close> gives \<open>beta = [-1, 2]\<close> and
  \<open>log_beta = [0, ln 2]\<close>; neither signals \<open>InvalidParameterError\<close>.
\<close>

theorem construction_no_error_counterexample:
  "Multinomial [Finite 0] = Inr \<lparr>beta = [NaN], log_beta = [Finite 0]\<rparr> \<and>
   Multinomial [Finite 0] \<noteq> Inl InvalidParameterError \<and>
   Multinomial [Finite (- 1), Finite 2] =
     Inr \<lparr>beta = [Finite (- 1), Finite 2], log_beta = [Finite 0, Finite (ln 2)]\<rparr> \<and>
   Multinomial [Finite (- 1), Finite 2] \<noteq> Inl InvalidParameterError"
  by (simp add: Multinomial_def numpy_sum_def signed_inf_def)

text \<open>
  C6. \<^verbatim>\<open>log_likelihood\<close> signals \<open>DimensionMismatchError\<close> for every sample whose
  length differs from \<open>D\<close>; the call returns the error alone, and the instance and the
  generator after the call are those before it.
\<close>

theorem log_likelihood_dimension_mismatch:
  assumes "length sample \<noteq> length (beta m)"
  shows "log_likelihood m sample = Inl DimensionMismatchError \<and>
         exec mn (CallLogLikelihood sample) (m, g) = (LogLik (Inl DimensionMismatchError), m, g)"
  using assms by (simp add: log_likelihood_def UTEXAS_ASSERT_def)

theorem log_likelihood_dimension_mismatch_witness:
  "length [Finite 1, Finite 2] \<noteq> length (beta single) \<and>
   log_likelihood single [Finite 1, Finite 2] = Inl DimensionMismatchError \<and>
   exec first_only (CallLogLikelihood [Finite 1, Finite 2]) (single, ()) =
     (LogLik (Inl DimensionMismatchError), single, ())"
proof -
  have l: "length [Finite 1, Finite 2] \<noteq> length (beta single)"
    by (simp add: single_def)
  show ?thesis
    using log_likelihood_dimension_mismatch [OF l, of first_only "()"] l by simp
qed

text \<open>
  C7. Given a library sampler that keeps the promise of \<^verbatim>\<open>numpy.random.multinomial\<close>,
  for every instance built from non-negative raw parameters of positive sum and every
  \<open>N \<ge> 0\<close>, \<^verbatim>\<open>variate(N)\<close> returns a vector of \<open>D\<close> non-negative integers that sum
  to \<open>N\<close>, the all-zero vector for \<open>N = 0\<close>; \<^verbatim>\<open>variate()\<close> is \<^verbatim>\<open>variate(1)\<close>, a
  vector with one entry \<open>1\<close> and the others \<open>0\<close>.
\<close>

theorem variate_counts:
  assumes "multinomial_contract mn"
    and "\<forall>r\<in>set rs. 0 \<le> r" "0 < sum_list rs" "Multinomial (map Finite rs) = Inr m"
  shows "(\<exists>ks. fst (variate_N mn N m g) = Some (map (\<lambda>k. Finite (real k)) ks) \<and>
            length ks = length (beta m) \<and> sum_list ks = N \<and>
            (N = 0 \<longrightarrow> ks = replicate (length (beta m)) 0)) \<and>
         variate mn m g = variate_N mn 1 m g \<and>
         (\<exists>i<length (beta m). fst (variate mn m g) =
            Some (map (\<lambda>k. Finite (real k)) ((replicate (length (beta m)) 0)[i := 1])))"
proof (intro conjI)
  have v: "valid_pvals (beta m)"
    using assms(2-4) by (rule valid_pvals_beta)
  from variate_N_contract [OF assms(1) v, of N g]
  obtain ks where ks: "fst (variate_N mn N m g) = Some (map (\<lambda>k. Finite (real k)) ks)"
      "length ks = length (beta m)" "sum_list ks = N"
    by (elim exE conjE)
  have z: "N = 0 \<longrightarrow> ks = replicate (length (beta m)) 0"
  proof
    assume "N = 0"
    then have "sum_list ks = 0"
      by (simp only: ks(3))
    then have "ks = replicate (length ks) 0"
      by (rule sum_list_zero_replicate)
    then show "ks = replicate (length (beta m)) 0"
      by (simp only: ks(2))
  qed
  show "\<exists>ks. fst (variate_N mn N m g) = Some (map (\<lambda>k. Finite (real k)) ks) \<and>
            length ks = length (beta m) \<and> sum_list ks = N \<and>
            (N = 0 \<longrightarrow> ks = replicate (length (beta m)) 0)"
    using ks z by (intro exI [of _ ks] conjI) assumption+
  show "variate mn m g = variate_N mn 1 m g"
    by (simp only: variate_def)
  from variate_N_contract [OF assms(1) v, of 1 g]
  obtain js where js: "fst (variate_N mn 1 m g) = Some (map (\<lambda>k. Finite (real k)) js)"
      "length js = length (beta m)" "sum_list js = 1"
    by (elim exE conjE)
  have "sum_list js = Suc 0"
    by (simp only: js(3) One_nat_def)
  from sum_list_one_hot [OF this]
  obtain i where i: "i < length js" "js = (replicate (length js) 0)[i := 1]"
    by (elim exE conjE)
  have "fst (variate mn m g) = Some (map (\<lambda>k. Finite (real k)) js)"
    by (simp only: variate_def js(1))
  then have "fst (variate mn m g) =
      Some (map (\<lambda>k. Finite (real k)) ((replicate (length (beta m)) 0)[i := 1]))"
    using i(2) js(2) by simp
  then show "\<exists>i<length (beta m). fst (variate mn m g) =
      Some (map (\<lambda>k. Finite (real k)) ((replicate (length (beta m)) 0)[i := 1]))"
    using i(1) js(2) by (intro exI [of _ i]) simp
qed

theorem variate_counts_witness:
  "multinomial_contract first_only \<and>
   Multinomial (map Finite [1, 3]) = Inr quarter \<and>
   fst (variate_N first_only 5 quarter ()) = Some [Finite 5, Finite 0] \<and>
   fst (variate_N first_only 0 quarter ()) = Some [Finite 0, Finite 0] \<and>
   fst (variate first_only quarter ()) = Some [Finite 1, Finite 0] \<and>
   (\<exists>ks. fst (variate_N first_only 5 quarter ()) = Some (map (\<lambda>k. Finite (real k)) ks) \<and>
      length ks = length (beta quarter) \<and> sum_list ks = 5) \<and>
   (\<exists>i<length (beta quarter). fst (variate first_only quarter ()) =
      Some (map (\<lambda>k. Finite (real k)) ((replicate (length (beta quarter)) 0)[i := 1])))"
proof -
  have p: "\<forall>r\<in>set [1, 3 :: real]. 0 \<le> r" "0 < sum_list [1, 3 :: real]"
    by simp_all
  have e: "fst (variate_N first_only 5 quarter ()) = Some [Finite 5, Finite 0]"
    "fst (variate_N first_only 0 quarter ()) = Some [Finite 0, Finite 0]"
    "fst (variate first_only quarter ()) = Some [Finite 1, Finite 0]"
    by (simp_all add: variate_def variate_N_def first_only_def quarter_def)
  note t = variate_counts [OF first_only_contract p Multinomial_quarter, of 5 "()"]
  have a: "\<exists>ks. fst (variate_N first_only 5 quarter ()) = Some (map (\<lambda>k. Finite (real k)) ks) \<and>
      length ks = length (beta quarter) \<and> sum_list ks = 5"
    using t by (elim conjE exE) (intro exI conjI, assumption+)
  have b: "\<exists>i<length (beta quarter). fst (variate first_only quarter ()) =
      Some (map (\<lambda>k. Finite (real k)) ((replicate (length (beta quarter)) 0)[i := 1]))"
    using t by (elim conjE) assumption
  show ?thesis
    using first_only_contract Multinomial_quarter e a b by (intro conjI) assumption+
qed

text \<open>
  C8. \<^verbatim>\<open>indicator()\<close> should draw one trial and return the index of its nonzero
  entry. The code does not: the call on the instance built from \<open>[1]\<close> draws nothing
  and returns no value.
\<close>

theorem indicator_returns_nothing:
  "Multinomial [Finite 1] = Inr single \<and> indicator single () = (None, ())"
  by (simp add: Multinomial_single indicator_def)

text \<open>
  C9. Every call of \<^verbatim>\<open>variate\<close>, \<^verbatim>\<open>indicator\<close>, \<^verbatim>\<open>log_likelihood\<close>, \<^verbatim>\<open>get_beta\<close> or
  \<^verbatim>\<open>get_log_beta\<close>, and every sequence of such calls, leaves the instance, and so its
  \<^verbatim>\<open>_beta\<close> and \<^verbatim>\<open>_log_beta\<close>, as it was.
\<close>

theorem operations_preserve_parameters:
  "fst (snd (exec mn c (m, g))) = m \<and> fst (run mn cs (m, g)) = m"
  using exec_state [of mn c m g] run_state [of mn cs "(m, g)"] by simp

theorem operations_preserve_parameters_witness:
  "fst (snd (exec first_only (CallVariateN 3) (single, ()))) = single \<and>
   fst (run first_only [CallVariate, CallIndicator, CallLogLikelihood [Finite 2], CallGetBeta,
     CallGetLogBeta] (single, ())) = single"
  by (rule operations_preserve_parameters)

text \<open>
  C10 (as amended). In \<^verbatim>\<open>log_likelihood\<close> the count \<^verbatim>\<open>n\<close> is an \<^verbatim>\<open>unsigned long\<close>: each
  \<^verbatim>\<open>n += sample(d)\<close> truncates the running total \<open>n + sample[d]\<close>, computed in double.
  For a sample of non-negative entries that a double adds exactly (multiples of
  \<open>2\<^sup>-\<^sup>k\<close> with a total below \<open>2\<^sup>5\<^sup>3\<^sup>-\<^sup>k - 1\<close>), fractional ones too, the loop ends with
  \<open>n\<close> the sum of the entries each truncated to an integer, and the result takes
  \<open>ln_gamma(n + 1)\<close> at that \<open>n\<close>, while the terms \<open>ln_gamma(sample[d] + 1)\<close> and
  \<open>sample[d] * log_beta[d]\<close> take the entries as they are.
\<close>

theorem log_likelihood_truncates_n:
  assumes "length rs = length (beta m)" "\<forall>r\<in>set rs. \<exists>j::nat. r = real j / 2 ^ k" "k \<le> 52"
    and "sum_list rs + 1 < 2 ^ 53 / 2 ^ k"
  shows "ll_loop (log_beta m) (map Finite rs) (length rs) (0, Finite 0) =
           Inr (\<Sum>d<length rs. nat \<lfloor>rs ! d\<rfloor>,
                ll_terms (log_beta m) (map Finite rs) (length rs) (Finite 0)) \<and>
         log_likelihood m (map Finite rs) =
           Inr (fadd (ll_terms (log_beta m) (map Finite rs) (length rs) (Finite 0))
                  (ln_gamma (Finite (real (\<Sum>d<length rs. nat \<lfloor>rs ! d\<rfloor>) + 1))))"
proof -
  have k: "k \<le> 1074" using assms(3) by simp
  show ?thesis
    using log_likelihood_exact [OF assms(1,2) k assms(4)] by (intro conjI)
qed

text \<open>
  For \<open>beta = [0.5, 0.5]\<close> and \<open>sample = [1.5, 1.5]\<close> the count ends at \<open>n = 2\<close>,
  not at \<open>3\<close>.
\<close>

theorem log_likelihood_truncates_n_witness:
  "ll_loop (log_beta fair_coin) [Finite (3 / 2), Finite (3 / 2)] 2 (0, Finite 0) =
     Inr (2, ll_terms (log_beta fair_coin) [Finite (3 / 2), Finite (3 / 2)] 2 (Finite 0)) \<and>
   log_likelihood fair_coin [Finite (3 / 2), Finite (3 / 2)] =
     Inr (fadd (ll_terms (log_beta fair_coin) [Finite (3 / 2), Finite (3 / 2)] 2 (Finite 0))
            (ln_gamma (Finite (2 + 1))))"
proof -
  let ?rs = "[3 / 2, 3 / 2 :: real]"
  have l: "length ?rs = length (beta fair_coin)"
    by (simp add: fair_coin_def)
  have "\<exists>j::nat. (3 / 2 :: real) = real j / 2 ^ 1"
    by (rule exI [of _ 3]) simp
  then have p: "\<forall>r\<in>set ?rs. \<exists>j::nat. r = real j / 2 ^ 1"
    by simp
  have s: "sum_list ?rs + 1 < 2 ^ 53 / 2 ^ 1"
    by simp
  have N: "(\<Sum>d<2. nat \<lfloor>?rs ! d\<rfloor>) = 2"
    by (simp add: lessThan_Suc numeral_2_eq_2)
  have M: "map Finite ?rs = [Finite (3 / 2), Finite (3 / 2)]"
    by simp
  have L: "length ?rs = 2"
    by simp
  note t = log_likelihood_truncates_n [OF l p _ s, unfolded M L N]
  show ?thesis
    using t by simp
qed

text \<open>
  C10 as stated fails on a negative entry: for \<open>sample = [-0.75, 5.5]\<close> the loop ends
  with \<open>n = 4\<close>, the truncation of \<open>5 - 0.75\<close>, where the entries each truncated sum
  to \<open>0 + 5 = 5\<close>. It fails also where the double sum rounds before it is truncated:
  for \<open>sample = [1 - 2\<^sup>-\<^sup>5\<^sup>3, 1]\<close> the sum \<open>1 + (1 - 2\<^sup>-\<^sup>5\<^sup>3)\<close> rounds to \<open>2\<close> and the loop
  ends with \<open>n = 2\<close>, where the entries each truncated sum to \<open>0 + 1 = 1\<close>.
\<close>

theorem log_likelihood_truncates_n_counterexample:
  "map_sum id fst (ll_loop (log_beta fair_coin) [Finite (- (3 / 4)), Finite (11 / 2)] 2 (0, Finite 0))
     = Inr 4 \<and>
   nat (\<lceil>- (3 / 4) :: real\<rceil> + \<lfloor>11 / 2 :: real\<rfloor>) = 5 \<and>
   map_sum id fst (ll_loop (log_beta fair_coin) [Finite (- (3 / 4)), Finite (11 / 2)] 2 (0, Finite 0))
     \<noteq> Inr (nat (\<lceil>- (3 / 4) :: real\<rceil> + \<lfloor>11 / 2 :: real\<rfloor>)) \<and>
   map_sum id fst (ll_loop (log_beta fair_coin) [Finite (1 - 1 / 2 ^ 53), Finite 1] 2 (0, Finite 0))
     = Inr 2 \<and>
   nat (\<lfloor>1 - 1 / 2 ^ 53 :: real\<rfloor> + \<lfloor>1 :: real\<rfloor>) = 1"
proof -
  have c1: "ulong_of_double (fadd (double_of_ulong 0) (Finite (11 / 2))) = Some 5"
    using count_step [of 1 0 11] by simp
  have "double_of_ulong 5 = Finite 5"
    unfolding double_of_ulong_def using round_double_nat [of 5] by simp
  moreover have "round_double (17 / 4) = Finite (17 / 4)"
    using round_double_dyadic [of 17 2] by simp
  ultimately have c2: "ulong_of_double (fadd (double_of_ulong 5) (Finite (- (3 / 4)))) = Some 4"
    by simp
  have t: "nat (\<lceil>- (3 / 4) :: real\<rceil> + \<lfloor>11 / 2 :: real\<rfloor>) = 5"
    by simp
  have d1: "ulong_of_double (fadd (double_of_ulong 0) (Finite 1)) = Some 1"
    using count_step [of 0 0 1] by simp
  have "double_of_ulong 1 = Finite 1"
    unfolding double_of_ulong_def using round_double_nat [of 1] by simp
  moreover have "fadd (Finite 1) (Finite (1 - 1 / 2 ^ 53)) = Finite 2"
    using round_double_tie_two by simp
  ultimately have d2: "ulong_of_double (fadd (double_of_ulong 1) (Finite (1 - 1 / 2 ^ 53))) = Some 2"
    by simp
  have "\<lfloor>1 - 1 / 2 ^ 53 :: real\<rfloor> = 0"
    by (simp only: floor_eq_iff) simp
  then have u: "nat (\<lfloor>1 - 1 / 2 ^ 53 :: real\<rfloor> + \<lfloor>1 :: real\<rfloor>) = 1"
    by simp
  show ?thesis
    using ll_loop_two [OF c1 c2] ll_loop_two [OF d1 d2] u by (simp only: t) simp
qed

end
